theory Spec2Isabelle
  imports Main "HOL-Library.Monad_Syntax"
begin

section \<open>AVL insertion engine (components/Tree/AVL Tree.js)\<close>

text \<open>
  An \<open>AVLNode\<close> object carries \<open>value\<close>, \<open>left\<close>, \<open>right\<close> and the memoized
  \<open>height\<close>; \<open>Null\<close> is JavaScript's \<open>null\<close>. The layout coordinates \<open>x\<close>, \<open>y\<close>
  written by \<open>assignPositions\<close> are not read by any engine function and are left out.
  The engine owns each node through exactly one reference and always continues with the
  returned root, so the in-place updates of the source are the rebuilt constructor
  applications here. Keys are the integers that \<open>parseInt\<close> delivers.
  A property read on \<open>null\<close> raises a TypeError in the source; it is the value \<open>None\<close>.
\<close>

datatype avl = Null | AVLNode avl int int avl
  \<comment> \<open>\<open>AVLNode left value height right\<close>\<close>

fun getHeight :: "avl \<Rightarrow> int" where
  "getHeight Null = 0"
| "getHeight (AVLNode l v h r) = h"

fun getBalance :: "avl \<Rightarrow> int" where
  "getBalance Null = 0"
| "getBalance (AVLNode l v h r) = getHeight l - getHeight r"

text \<open>\<open>node.value\<close>: a TypeError on \<open>null\<close>.\<close>

fun nodeValue :: "avl \<Rightarrow> int option" where
  "nodeValue Null = None"
| "nodeValue (AVLNode l v h r) = Some v"

text \<open>
  \<open>rightRotate(y)\<close>: \<open>x = y.left; T2 = x.right\<close> (a TypeError when \<open>y\<close> or \<open>x\<close> is
  \<open>null\<close>), then \<open>x.right = y; y.left = T2\<close>, the height of \<open>y\<close> and then of \<open>x\<close>
  recomputed from the stored heights of their children.
\<close>

fun avl_rightRotate :: "avl \<Rightarrow> avl option" where
  "avl_rightRotate (AVLNode (AVLNode xl xv xh T2) yv yh yr) =
     (let y' = AVLNode T2 yv (1 + max (getHeight T2) (getHeight yr)) yr
      in Some (AVLNode xl xv (1 + max (getHeight xl) (getHeight y')) y'))"
| "avl_rightRotate (AVLNode Null yv yh yr) = None"
| "avl_rightRotate Null = None"

fun avl_leftRotate :: "avl \<Rightarrow> avl option" where
  "avl_leftRotate (AVLNode xl xv xh (AVLNode T2 yv yh yr)) =
     (let x' = AVLNode xl xv (1 + max (getHeight xl) (getHeight T2)) T2
      in Some (AVLNode x' yv (1 + max (getHeight x') (getHeight yr)) yr))"
| "avl_leftRotate (AVLNode xl xv xh Null) = None"
| "avl_leftRotate Null = None"

text \<open>
  The second half of \<open>avlInsert\<close> (from the height update to the final \<open>return root\<close>),
  applied to the node whose child has just been replaced. The four \<open>if\<close> statements are
  kept in the order of the source; \<open>&&\<close> evaluates \<open>root.left.value\<close> only when the
  balance test has succeeded.
\<close>

fun avlInsert_rebalance :: "avl \<Rightarrow> int \<Rightarrow> avl option" where
  "avlInsert_rebalance Null v = None"
| "avlInsert_rebalance (AVLNode l rv h0 r) v =
     (let h = 1 + max (getHeight l) (getHeight r);
          root = AVLNode l rv h r;
          balance = getBalance root
      in do {
        c1 \<leftarrow> (if balance > 1 then do { lv \<leftarrow> nodeValue l; Some (v < lv) } else Some False);
        if c1 then avl_rightRotate root else do {
        c2 \<leftarrow> (if balance < -1 then do { rv' \<leftarrow> nodeValue r; Some (v > rv') } else Some False);
        if c2 then avl_leftRotate root else do {
        c3 \<leftarrow> (if balance > 1 then do { lv \<leftarrow> nodeValue l; Some (v > lv) } else Some False);
        if c3 then do { l' \<leftarrow> avl_leftRotate l; avl_rightRotate (AVLNode l' rv h r) } else do {
        c4 \<leftarrow> (if balance < -1 then do { rv' \<leftarrow> nodeValue r; Some (v < rv') } else Some False);
        if c4 then do { r' \<leftarrow> avl_rightRotate r; avl_leftRotate (AVLNode l rv h r') }
        else Some root } } } })"

fun avlInsert :: "avl \<Rightarrow> int \<Rightarrow> avl option" where
  "avlInsert Null v = Some (AVLNode Null v 1 Null)"
| "avlInsert (AVLNode l rv h r) v =
     (if v < rv
      then do { l' \<leftarrow> avlInsert l v; avlInsert_rebalance (AVLNode l' rv h r) v }
      else do { r' \<leftarrow> avlInsert r v; avlInsert_rebalance (AVLNode l rv h r') v })"

text \<open>
  A trace entry \<open>{ tree: JSON.parse(JSON.stringify(root)), current: val }\<close>. The JSON
  round trip yields a value built from the serialised text, which no engine function
  receives; it is the tree value at that moment.
\<close>

record avl_step =
  tree :: avl
  current :: int

text \<open>The \<open>forEach\<close> loop of \<open>buildAVLTreeSteps\<close>, with its two variables \<open>root\<close> and \<open>steps\<close>.\<close>

fun buildAVLTreeSteps_loop :: "avl \<Rightarrow> avl_step list \<Rightarrow> int list \<Rightarrow> avl_step list option" where
  "buildAVLTreeSteps_loop root steps [] = Some steps"
| "buildAVLTreeSteps_loop root steps (val # vals) = do {
     root' \<leftarrow> avlInsert root val;
     buildAVLTreeSteps_loop root' (steps @ [\<lparr>tree = root', current = val\<rparr>]) vals }"

definition buildAVLTreeSteps :: "int list \<Rightarrow> avl_step list option" where
  "buildAVLTreeSteps vals = buildAVLTreeSteps_loop Null [] vals"

text \<open>The tree after a sequence of insertions from a given tree.\<close>

fun avlInsertAll :: "avl \<Rightarrow> int list \<Rightarrow> avl option" where
  "avlInsertAll t [] = Some t"
| "avlInsertAll t (v # vs) = do { t' \<leftarrow> avlInsert t v; avlInsertAll t' vs }"

subsection \<open>Properties of AVL trees\<close>

fun avl_inorder :: "avl \<Rightarrow> int list" where
  "avl_inorder Null = []"
| "avl_inorder (AVLNode l v h r) = avl_inorder l @ v # avl_inorder r"

text \<open>The real height of a subtree: 0 when empty, 1 for a leaf.\<close>

fun realHeight :: "avl \<Rightarrow> int" where
  "realHeight Null = 0"
| "realHeight (AVLNode l v h r) = 1 + max (realHeight l) (realHeight r)"

fun heightsCorrect :: "avl \<Rightarrow> bool" where
  "heightsCorrect Null = True"
| "heightsCorrect (AVLNode l v h r) =
     (h = 1 + max (realHeight l) (realHeight r) \<and> heightsCorrect l \<and> heightsCorrect r)"

text \<open>The AVL balance invariant, on the real heights.\<close>

fun avlBalanced :: "avl \<Rightarrow> bool" where
  "avlBalanced Null = True"
| "avlBalanced (AVLNode l v h r) =
     (\<bar>realHeight l - realHeight r\<bar> \<le> 1 \<and> avlBalanced l \<and> avlBalanced r)"

text \<open>
  A well-formed AVL tree: correct stored heights and balance at every node. \<open>tallSide t v\<close>
  says that the root of \<open>t\<close> has a key other than \<open>v\<close> and that the child on the side of
  \<open>v\<close> is the taller one, by one.
\<close>

definition avlok :: "avl \<Rightarrow> bool" where
  "avlok t = (heightsCorrect t \<and> avlBalanced t)"

fun tallSide :: "avl \<Rightarrow> int \<Rightarrow> bool" where
  "tallSide Null v = False"
| "tallSide (AVLNode a x h b) v =
     (v \<noteq> x \<and> (v < x \<longrightarrow> realHeight a = realHeight b + 1)
            \<and> (x < v \<longrightarrow> realHeight b = realHeight a + 1))"

section \<open>Red-Black insertion engine (components/Tree/Red-black Tree.js)\<close>

text \<open>
  The Red-Black engine mutates nodes that are shared between their parent, their children
  (through the \<open>parent\<close> back-reference) and the local variables of \<open>fixInsert\<close>, so the
  nodes live in an explicit heap: a reference is an address or \<open>null\<close> (\<open>None\<close>), and
  every assignment to a field is an update of the heap at one address. Reading a field
  of \<open>null\<close> raises a TypeError in the source; it is the result \<open>None\<close> of the operation.
  The coordinates \<open>x\<close>, \<open>y\<close> are left out as for the AVL nodes.
\<close>

datatype color = RED | BLACK

record RedBlackNode =
  "value" :: int
  left :: "nat option"
  right :: "nat option"
  parent :: "nat option"
  color :: color

type_synonym ref = "nat option"
type_synonym heap = "nat \<Rightarrow> RedBlackNode"

text \<open>The constructor: a RED node without links.\<close>

definition newRedBlackNode :: "int \<Rightarrow> RedBlackNode" where
  "newRedBlackNode v = \<lparr>value = v, left = None, right = None, parent = None, color = RED\<rparr>"

text \<open>Field assignments \<open>a.left = p\<close>, \<open>a.right = p\<close>, \<open>a.parent = p\<close>, \<open>a.color = c\<close>.\<close>

definition setLeft :: "nat \<Rightarrow> ref \<Rightarrow> heap \<Rightarrow> heap" where
  "setLeft a p h = h(a := (h a)\<lparr>left := p\<rparr>)"

definition setRight :: "nat \<Rightarrow> ref \<Rightarrow> heap \<Rightarrow> heap" where
  "setRight a p h = h(a := (h a)\<lparr>right := p\<rparr>)"

definition setParent :: "nat \<Rightarrow> ref \<Rightarrow> heap \<Rightarrow> heap" where
  "setParent a p h = h(a := (h a)\<lparr>parent := p\<rparr>)"

definition setColor :: "nat \<Rightarrow> color \<Rightarrow> heap \<Rightarrow> heap" where
  "setColor a c h = h(a := (h a)\<lparr>color := c\<rparr>)"

text \<open>
  \<open>leftRotate(root, x)\<close>, statement by statement; every field is read from the heap as it
  is at that statement.
\<close>

definition leftRotate :: "heap \<Rightarrow> ref \<Rightarrow> ref \<Rightarrow> (heap \<times> ref) option" where
  "leftRotate h root x = do {
     xa \<leftarrow> x;
     ya \<leftarrow> right (h xa);
     let h = setRight xa (left (h ya)) h;
     let h = (case left (h ya) of None \<Rightarrow> h | Some b \<Rightarrow> setParent b (Some xa) h);
     let h = setParent ya (parent (h xa)) h;
     let (h, root) = (case parent (h xa) of
                        None \<Rightarrow> (h, Some ya)
                      | Some pa \<Rightarrow> if Some xa = left (h pa) then (setLeft pa (Some ya) h, root)
                                   else (setRight pa (Some ya) h, root));
     let h = setLeft ya (Some xa) h;
     let h = setParent xa (Some ya) h;
     Some (h, root) }"

definition rightRotate :: "heap \<Rightarrow> ref \<Rightarrow> ref \<Rightarrow> (heap \<times> ref) option" where
  "rightRotate h root y = do {
     ya \<leftarrow> y;
     xa \<leftarrow> left (h ya);
     let h = setLeft ya (right (h xa)) h;
     let h = (case right (h xa) of None \<Rightarrow> h | Some b \<Rightarrow> setParent b (Some ya) h);
     let h = setParent xa (parent (h ya)) h;
     let (h, root) = (case parent (h ya) of
                        None \<Rightarrow> (h, Some xa)
                      | Some pa \<Rightarrow> if Some ya = left (h pa) then (setLeft pa (Some xa) h, root)
                                   else (setRight pa (Some xa) h, root));
     let h = setRight xa (Some ya) h;
     let h = setParent ya (Some xa) h;
     Some (h, root) }"

text \<open>
  The guard of the loop of \<open>fixInsert\<close>: \<open>z.parent && z.parent.color === RED\<close>. The
  variable \<open>z\<close> always holds an object (the new node, \<open>z.parent\<close> under the guard, or
  \<open>z.parent.parent\<close> after a write to it), so it is an address.
\<close>

definition fixInsert_cond :: "heap \<Rightarrow> nat \<Rightarrow> bool" where
  "fixInsert_cond h z = (case parent (h z) of None \<Rightarrow> False | Some p \<Rightarrow> color (h p) = RED)"

text \<open>The test \<open>y && y.color === RED\<close> on the uncle.\<close>

definition isRed :: "heap \<Rightarrow> ref \<Rightarrow> bool" where
  "isRed h y = (case y of None \<Rightarrow> False | Some u \<Rightarrow> color (h u) = RED)"

text \<open>
  One iteration of the loop of \<open>fixInsert\<close>. \<open>z.parent\<close> is read again for every
  statement that mentions it, and \<open>z.parent.parent\<close> likewise; each read of a field of
  \<open>null\<close> ends the iteration with \<open>None\<close>.
\<close>

definition fixInsert_body :: "heap \<Rightarrow> ref \<Rightarrow> nat \<Rightarrow> (heap \<times> ref \<times> nat) option" where
  "fixInsert_body h root z = do {
     p \<leftarrow> parent (h z);
     g \<leftarrow> parent (h p);
     if Some p = left (h g) then do {
       let y = right (h g);
       if isRed h y then do {
         p \<leftarrow> parent (h z);
         let h = setColor p BLACK h;
         u \<leftarrow> y;
         let h = setColor u BLACK h;
         p \<leftarrow> parent (h z);
         g \<leftarrow> parent (h p);
         let h = setColor g RED h;
         p \<leftarrow> parent (h z);
         g \<leftarrow> parent (h p);
         Some (h, root, g)
       } else do {
         p \<leftarrow> parent (h z);
         (h, root, z) \<leftarrow> (if Some z = right (h p)
                          then do { (h', root') \<leftarrow> leftRotate h root (Some p); Some (h', root', p) }
                          else Some (h, root, z));
         p \<leftarrow> parent (h z);
         let h = setColor p BLACK h;
         p \<leftarrow> parent (h z);
         g \<leftarrow> parent (h p);
         let h = setColor g RED h;
         p \<leftarrow> parent (h z);
         (h, root) \<leftarrow> rightRotate h root (parent (h p));
         Some (h, root, z)
       }
     } else do {
       let y = left (h g);
       if isRed h y then do {
         p \<leftarrow> parent (h z);
         let h = setColor p BLACK h;
         u \<leftarrow> y;
         let h = setColor u BLACK h;
         p \<leftarrow> parent (h z);
         g \<leftarrow> parent (h p);
         let h = setColor g RED h;
         p \<leftarrow> parent (h z);
         g \<leftarrow> parent (h p);
         Some (h, root, g)
       } else do {
         p \<leftarrow> parent (h z);
         (h, root, z) \<leftarrow> (if Some z = left (h p)
                          then do { (h', root') \<leftarrow> rightRotate h root (Some p); Some (h', root', p) }
                          else Some (h, root, z));
         p \<leftarrow> parent (h z);
         let h = setColor p BLACK h;
         p \<leftarrow> parent (h z);
         g \<leftarrow> parent (h p);
         let h = setColor g RED h;
         p \<leftarrow> parent (h z);
         (h, root) \<leftarrow> leftRotate h root (parent (h p));
         Some (h, root, z)
       }
     } }"

text \<open>
  The \<open>while\<close> loop of \<open>fixInsert\<close>. It is defined in the option monad: \<open>None\<close> stands
  for a run that raises or does not return.
\<close>

partial_function (option) fixInsert_loop :: "heap \<Rightarrow> ref \<Rightarrow> nat \<Rightarrow> (heap \<times> ref \<times> nat) option" where
  "fixInsert_loop h root z =
     (if fixInsert_cond h z
      then do { (h', root', z') \<leftarrow> fixInsert_body h root z; fixInsert_loop h' root' z' }
      else Some (h, root, z))"

declare fixInsert_loop.simps [code]

text \<open>The first \<open>n\<close> iterations of that loop; \<open>None\<close> here is a TypeError only.\<close>

fun fixInsert_iter :: "nat \<Rightarrow> heap \<Rightarrow> ref \<Rightarrow> nat \<Rightarrow> (heap \<times> ref \<times> nat) option" where
  "fixInsert_iter 0 h root z = Some (h, root, z)"
| "fixInsert_iter (Suc n) h root z =
     (if fixInsert_cond h z
      then do { (h', root', z') \<leftarrow> fixInsert_body h root z; fixInsert_iter n h' root' z' }
      else Some (h, root, z))"

text \<open>\<open>fixInsert(root, z)\<close>: the loop, then \<open>root.color = BLACK; return root\<close>.\<close>

definition fixInsert :: "heap \<Rightarrow> ref \<Rightarrow> nat \<Rightarrow> (heap \<times> ref) option" where
  "fixInsert h root z = do {
     (h, root, z) \<leftarrow> fixInsert_loop h root z;
     r \<leftarrow> root;
     Some (setColor r BLACK h, root) }"

text \<open>
  The downward walk of \<open>redBlackInsert\<close>: \<open>while (x !== null) { y = x; x = (z.value <
  x.value) ? x.left : x.right }\<close>, returning the final \<open>y\<close>.
\<close>

partial_function (option) redBlackInsert_walk :: "heap \<Rightarrow> int \<Rightarrow> ref \<Rightarrow> ref \<Rightarrow> ref option" where
  "redBlackInsert_walk h v x y =
     (case x of
        None \<Rightarrow> Some y
      | Some xa \<Rightarrow> redBlackInsert_walk h v (if v < value (h xa) then left (h xa) else right (h xa)) (Some xa))"

declare redBlackInsert_walk.simps [code]

text \<open>
  The store of the Red-Black engine: the heap and the first address that no object
  occupies. \<open>new RedBlackNode(value)\<close> takes that address.
\<close>

record store =
  heap :: heap
  fresh :: nat

text \<open>
  \<open>redBlackInsert(root, value)\<close> up to the call of \<open>fixInsert\<close>: the new node, the
  walk, \<open>z.parent = y\<close> and the link from \<open>y\<close> (or the new root). It returns the heap,
  the root and the new node \<open>z\<close>.
\<close>

definition redBlackInsert_attach :: "store \<Rightarrow> ref \<Rightarrow> int \<Rightarrow> (heap \<times> ref \<times> nat) option" where
  "redBlackInsert_attach s root v = do {
     let z = fresh s;
     let h = (heap s)(z := newRedBlackNode v);
     y \<leftarrow> redBlackInsert_walk h (value (h z)) root None;
     let h = setParent z y h;
     let (h, root) = (case y of
                        None \<Rightarrow> (h, Some z)
                      | Some ya \<Rightarrow> if value (h z) < value (h ya) then (setLeft ya (Some z) h, root)
                                   else (setRight ya (Some z) h, root));
     Some (h, root, z) }"

text \<open>The whole of \<open>redBlackInsert\<close>: \<open>root = fixInsert(root, z); return root\<close>.\<close>

definition redBlackInsert :: "store \<Rightarrow> ref \<Rightarrow> int \<Rightarrow> (store \<times> ref) option" where
  "redBlackInsert s root v = do {
     (h, root, z) \<leftarrow> redBlackInsert_attach s root v;
     (h, root) \<leftarrow> fixInsert h root z;
     Some (\<lparr>heap = h, fresh = Suc z\<rparr>, root) }"

text \<open>
  A snapshot node as \<open>cloneTree\<close> produces it: the replacer drops the key \<open>parent\<close>, so the
  parsed object has \<open>value\<close>, \<open>left\<close>, \<open>right\<close> and \<open>color\<close> only, and \<open>null\<close> stays
  \<open>null\<close>.
\<close>

datatype snapshot = SNull | SNode snapshot int color snapshot
  \<comment> \<open>\<open>SNode left value color right\<close>\<close>

text \<open>
  \<open>cloneTree(root)\<close>: \<open>JSON.stringify\<close> walks the object graph along \<open>left\<close> and \<open>right\<close>;
  on a cyclic graph it does not produce a text (\<open>None\<close>).
\<close>

partial_function (option) cloneTree :: "heap \<Rightarrow> ref \<Rightarrow> snapshot option" where
  "cloneTree h r =
     (case r of
        None \<Rightarrow> Some SNull
      | Some a \<Rightarrow> do {
          l \<leftarrow> cloneTree h (left (h a));
          rt \<leftarrow> cloneTree h (right (h a));
          Some (SNode l (value (h a)) (color (h a)) rt) })"

declare cloneTree.simps [code]

text \<open>The \<open>forEach\<close> loop of \<open>buildRedBlackTreeSteps\<close>, with its variables \<open>root\<close> and \<open>steps\<close>.\<close>

fun buildRedBlackTreeSteps_loop ::
  "store \<Rightarrow> ref \<Rightarrow> snapshot list \<Rightarrow> int list \<Rightarrow> snapshot list option" where
  "buildRedBlackTreeSteps_loop s root steps [] = Some steps"
| "buildRedBlackTreeSteps_loop s root steps (val # vals) = do {
     (s', root') \<leftarrow> redBlackInsert s root val;
     snap \<leftarrow> cloneTree (heap s') root';
     buildRedBlackTreeSteps_loop s' root' (steps @ [snap]) vals }"

text \<open>The store before the first allocation.\<close>

definition emptyStore :: store where
  "emptyStore = \<lparr>heap = (\<lambda>_. newRedBlackNode 0), fresh = 0\<rparr>"

definition buildRedBlackTreeSteps :: "int list \<Rightarrow> snapshot list option" where
  "buildRedBlackTreeSteps vals = buildRedBlackTreeSteps_loop emptyStore None [] vals"

text \<open>The store and root after a sequence of insertions.\<close>

fun redBlackInsertAll :: "store \<Rightarrow> ref \<Rightarrow> int list \<Rightarrow> (store \<times> ref) option" where
  "redBlackInsertAll s root [] = Some (s, root)"
| "redBlackInsertAll s root (v # vs) = do {
     (s', root') \<leftarrow> redBlackInsert s root v;
     redBlackInsertAll s' root' vs }"

text \<open>
  The number of \<open>parent\<close> links from a node up to the root (where \<open>parent\<close> is \<open>null\<close>).
\<close>

partial_function (option) nodeDepth :: "heap \<Rightarrow> nat \<Rightarrow> nat option" where
  "nodeDepth h z =
     (case parent (h z) of
        None \<Rightarrow> Some 0
      | Some p \<Rightarrow> do { d \<leftarrow> nodeDepth h p; Some (Suc d) })"

declare nodeDepth.simps [code]

subsection \<open>Properties of snapshots\<close>

fun snap_inorder :: "snapshot \<Rightarrow> int list" where
  "snap_inorder SNull = []"
| "snap_inorder (SNode l v c r) = snap_inorder l @ v # snap_inorder r"

text \<open>The root is BLACK (an empty snapshot has no root).\<close>

fun rootIsBlack :: "snapshot \<Rightarrow> bool" where
  "rootIsBlack SNull = False"
| "rootIsBlack (SNode l v c r) = (c = BLACK)"

fun snapIsRed :: "snapshot \<Rightarrow> bool" where
  "snapIsRed SNull = False"
| "snapIsRed (SNode l v c r) = (c = RED)"

text \<open>No RED node has a RED child.\<close>

fun noRedRed :: "snapshot \<Rightarrow> bool" where
  "noRedRed SNull = True"
| "noRedRed (SNode l v c r) =
     ((c = RED \<longrightarrow> \<not> snapIsRed l \<and> \<not> snapIsRed r) \<and> noRedRed l \<and> noRedRed r)"

text \<open>
  The number of BLACK nodes on each path from a node down to a \<open>null\<close> leaf, one entry
  per path, and the list of all nodes (as subtrees, the \<open>null\<close> leaves included).
  \<open>blackCountsEqual\<close> says that, from every node, all paths have the same count.
\<close>

fun blackCounts :: "snapshot \<Rightarrow> nat list" where
  "blackCounts SNull = [0]"
| "blackCounts (SNode l v c r) =
     map (\<lambda>n. n + (if c = BLACK then 1 else 0)) (blackCounts l @ blackCounts r)"

fun subtrees :: "snapshot \<Rightarrow> snapshot list" where
  "subtrees SNull = [SNull]"
| "subtrees (SNode l v c r) = SNode l v c r # subtrees l @ subtrees r"

definition blackCountsEqual :: "snapshot \<Rightarrow> bool" where
  "blackCountsEqual s =
     (\<forall>n\<in>set (subtrees s). \<forall>a\<in>set (blackCounts n). \<forall>b\<in>set (blackCounts n). a = b)"


text \<open>
  A sorted key sequence with one more key \<open>v\<close>, put behind every key that is not greater
  and before every greater key.
\<close>

definition placeKey :: "int \<Rightarrow> int list \<Rightarrow> int list" where
  "placeKey v xs = filter (\<lambda>x. x \<le> v) xs @ v # filter (\<lambda>x. v < x) xs"



text \<open>
  The heap, root and new node at the moment \<open>redBlackInsert\<close> calls \<open>fixInsert\<close>, when the
  key \<open>v\<close> is inserted after the keys \<open>vals\<close>.
\<close>

definition attachedState :: "int list \<Rightarrow> int \<Rightarrow> (heap \<times> ref \<times> nat) option" where
  "attachedState vals v = do {
     (s, root) \<leftarrow> redBlackInsertAll emptyStore None vals;
     redBlackInsert_attach s root v }"

section \<open>Playback (the AlgorithmVisualizer components)\<close>

text \<open>
  The state of an \<open>AlgorithmVisualizer\<close>: its props \<open>steps\<close> and \<open>speed\<close>, the state
  variable \<open>currentStepIndex\<close> (\<open>currentStep\<close> in the sorting visualizers), the \<open>paused\<close>
  flag that the sorting visualizers have, and whether the interval of the second effect
  is set. The renderer and the clock are outside; what happens on each event is here.
\<close>

record 'a visualizer =
  steps :: "'a list"
  speed :: nat
  currentStepIndex :: int
  paused :: bool
  timerActive :: bool

text \<open>Mounting: \<open>useState(0)\<close>, then both effects run.\<close>

definition mount :: "'a list \<Rightarrow> nat \<Rightarrow> 'a visualizer" where
  "mount tr ms = \<lparr>steps = tr, speed = ms, currentStepIndex = 0, paused = False,
                  timerActive = (length tr \<noteq> 0)\<rparr>"

text \<open>
  A new \<open>steps\<close> prop: the first effect calls \<open>setCurrentStepIndex(0)\<close>; the second clears
  the old interval and sets a new one unless \<open>paused || steps.length === 0\<close>.
\<close>

definition setSteps :: "'a list \<Rightarrow> 'a visualizer \<Rightarrow> 'a visualizer" where
  "setSteps tr v = v\<lparr>steps := tr, currentStepIndex := 0,
                     timerActive := (\<not> paused v \<and> length tr \<noteq> 0)\<rparr>"

text \<open>
  The interval callback: \<open>prev < steps.length - 1 ? prev + 1 : (clearInterval(interval),
  prev)\<close>.
\<close>

definition tick :: "'a visualizer \<Rightarrow> 'a visualizer" where
  "tick v = (if currentStepIndex v < int (length (steps v)) - 1
             then v\<lparr>currentStepIndex := currentStepIndex v + 1\<rparr>
             else v\<lparr>timerActive := False\<rparr>)"

section \<open>Trees as values: the abstraction of the heap\<close>

text \<open>
  The shape that a part of the heap has: a tree of addresses, each with the colour and
  the key stored at that address.
\<close>

datatype rbt = Leaf | Node rbt nat color int rbt
  \<comment> \<open>\<open>Node left address color value right\<close>\<close>

fun addrs :: "rbt \<Rightarrow> nat list" where
  "addrs Leaf = []"
| "addrs (Node l a c v r) = addrs l @ a # addrs r"

fun inorder :: "rbt \<Rightarrow> (nat \<times> int) list" where
  "inorder Leaf = []"
| "inorder (Node l a c v r) = inorder l @ (a, v) # inorder r"

fun root_color :: "rbt \<Rightarrow> color" where
  "root_color Leaf = BLACK"
| "root_color (Node l a c v r) = c"

text \<open>
  \<open>repr h par p t\<close>: in the heap \<open>h\<close> the reference \<open>p\<close> is the root of the tree \<open>t\<close>, every
  node of it has the fields that \<open>t\<close> says, and the \<open>parent\<close> field of its root is \<open>par\<close>.
\<close>

fun repr :: "heap \<Rightarrow> ref \<Rightarrow> ref \<Rightarrow> rbt \<Rightarrow> bool" where
  "repr h par p Leaf = (p = None)"
| "repr h par p (Node l a c v r) =
     (p = Some a \<and> parent (h a) = par \<and> color (h a) = c \<and> value (h a) = v
      \<and> repr h (Some a) (left (h a)) l \<and> repr h (Some a) (right (h a)) r)"

text \<open>The snapshot of a tree: addresses dropped.\<close>

fun erase :: "rbt \<Rightarrow> snapshot" where
  "erase Leaf = SNull"
| "erase (Node l a c v r) = SNode (erase l) v c (erase r)"

text \<open>
  The path from a position in the tree up to the root, innermost step first: a step
  records the node above and the sibling subtree. \<open>LeftOf a c v r\<close>: the position is the
  left child of the node \<open>a\<close>, whose right subtree is \<open>r\<close>.
\<close>

datatype frame = LeftOf nat color int rbt | RightOf rbt nat color int

fun frame_addr :: "frame \<Rightarrow> nat" where
  "frame_addr (LeftOf a c v r) = a"
| "frame_addr (RightOf l a c v) = a"

fun frame_color :: "frame \<Rightarrow> color" where
  "frame_color (LeftOf a c v r) = c"
| "frame_color (RightOf l a c v) = c"

fun frame_sibling :: "frame \<Rightarrow> rbt" where
  "frame_sibling (LeftOf a c v r) = r"
| "frame_sibling (RightOf l a c v) = l"

fun frame_recolor :: "color \<Rightarrow> frame \<Rightarrow> frame" where
  "frame_recolor c' (LeftOf a c v r) = LeftOf a c' v r"
| "frame_recolor c' (RightOf l a c v) = RightOf l a c' v"

fun plug1 :: "frame \<Rightarrow> rbt \<Rightarrow> rbt" where
  "plug1 (LeftOf a c v r) t = Node t a c v r"
| "plug1 (RightOf l a c v) t = Node l a c v t"

fun plug :: "frame list \<Rightarrow> rbt \<Rightarrow> rbt" where
  "plug [] t = t"
| "plug (f # cs) t = plug cs (plug1 f t)"

fun ctx_parent :: "frame list \<Rightarrow> ref" where
  "ctx_parent [] = None"
| "ctx_parent (f # cs) = Some (frame_addr f)"

fun ctx_addrs :: "frame list \<Rightarrow> nat list" where
  "ctx_addrs [] = []"
| "ctx_addrs (f # cs) = frame_addr f # addrs (frame_sibling f) @ ctx_addrs cs"

text \<open>The nodes before and behind the position, in in-order sequence.\<close>

fun ctx_before :: "frame list \<Rightarrow> (nat \<times> int) list" where
  "ctx_before [] = []"
| "ctx_before (LeftOf a c v r # cs) = ctx_before cs"
| "ctx_before (RightOf l a c v # cs) = ctx_before cs @ inorder l @ [(a, v)]"

fun ctx_after :: "frame list \<Rightarrow> (nat \<times> int) list" where
  "ctx_after [] = []"
| "ctx_after (LeftOf a c v r # cs) = (a, v) # inorder r @ ctx_after cs"
| "ctx_after (RightOf l a c v # cs) = ctx_after cs"

text \<open>A step of the walk for the key \<open>k\<close>: left exactly when \<open>k\<close> is less than the node's key.\<close>

fun routed :: "int \<Rightarrow> frame \<Rightarrow> bool" where
  "routed k (LeftOf a c v r) = (k < v)"
| "routed k (RightOf l a c v) = (\<not> k < v)"

text \<open>
  \<open>repr_ctx h root p cs\<close>: in the heap \<open>h\<close>, the reference \<open>p\<close> hangs below the path \<open>cs\<close>,
  whose last node is the one that \<open>root\<close> refers to.
\<close>

fun repr_ctx :: "heap \<Rightarrow> ref \<Rightarrow> ref \<Rightarrow> frame list \<Rightarrow> bool" where
  "repr_ctx h root p [] = (root = p)"
| "repr_ctx h root p (LeftOf a c v r # cs) =
     (left (h a) = p \<and> parent (h a) = ctx_parent cs \<and> color (h a) = c \<and> value (h a) = v
      \<and> repr h (Some a) (right (h a)) r \<and> repr_ctx h root (Some a) cs)"
| "repr_ctx h root p (RightOf l a c v # cs) =
     (right (h a) = p \<and> parent (h a) = ctx_parent cs \<and> color (h a) = c \<and> value (h a) = v
      \<and> repr h (Some a) (left (h a)) l \<and> repr_ctx h root (Some a) cs)"

text \<open>
  The heap holds the tree \<open>plug cs t\<close>, with \<open>p\<close> at the subtree \<open>t\<close>, and no node occurs
  twice.
\<close>

definition zrel :: "heap \<Rightarrow> ref \<Rightarrow> ref \<Rightarrow> frame list \<Rightarrow> rbt \<Rightarrow> bool" where
  "zrel h root p cs t =
     (repr h (ctx_parent cs) p t \<and> repr_ctx h root p cs \<and> distinct (ctx_addrs cs @ addrs t))"

text \<open>
  The colour invariants on trees: \<open>bh\<close> counts the BLACK nodes down the left spine;
  \<open>rbsub\<close> asks for equal counts at every node and for BLACK children of RED nodes;
  \<open>rb_valid\<close> adds the BLACK root.
\<close>

fun bh :: "rbt \<Rightarrow> nat" where
  "bh Leaf = 0"
| "bh (Node l a c v r) = bh l + (if c = BLACK then 1 else 0)"

fun rbsub :: "rbt \<Rightarrow> bool" where
  "rbsub Leaf = True"
| "rbsub (Node l a c v r) =
     (rbsub l \<and> rbsub r \<and> bh l = bh r
      \<and> (c = RED \<longrightarrow> root_color l = BLACK \<and> root_color r = BLACK))"

definition rb_valid :: "rbt \<Rightarrow> bool" where
  "rb_valid t = (rbsub t \<and> root_color t = BLACK)"

text \<open>
  What the path above the fix-up position satisfies when the subtree at the position has
  \<open>k\<close> BLACK nodes on its paths: the siblings are well coloured with the matching count,
  and a RED node on the path has a BLACK sibling below it and a BLACK node above it.
\<close>

fun ctx_ok :: "frame list \<Rightarrow> nat \<Rightarrow> bool" where
  "ctx_ok [] k = True"
| "ctx_ok (f # cs) k =
     (rbsub (frame_sibling f) \<and> bh (frame_sibling f) = k
      \<and> (frame_color f = RED \<longrightarrow>
            root_color (frame_sibling f) = BLACK
            \<and> (case cs of [] \<Rightarrow> False | g # _ \<Rightarrow> frame_color g = BLACK))
      \<and> ctx_ok cs (k + (if frame_color f = BLACK then 1 else 0)))"

fun blacks :: "frame list \<Rightarrow> nat" where
  "blacks [] = 0"
| "blacks (f # cs) = (if frame_color f = BLACK then 1 else 0) + blacks cs"

text \<open>The invariant of the loop of \<open>fixInsert\<close>, with \<open>z\<close> at the RED root of \<open>t\<close>.\<close>

definition fix_inv :: "heap \<Rightarrow> ref \<Rightarrow> nat \<Rightarrow> frame list \<Rightarrow> rbt \<Rightarrow> bool" where
  "fix_inv h root z cs t =
     (zrel h root (Some z) cs t \<and> root_color t = RED \<and> rbsub t \<and> ctx_ok cs (bh t))"

text \<open>
  The store holds the tree \<open>t\<close> at \<open>root\<close>, below the first free address; \<open>rb_good\<close> adds
  the colour invariants and the order of the keys.
\<close>

definition rb_state :: "store \<Rightarrow> ref \<Rightarrow> rbt \<Rightarrow> bool" where
  "rb_state s root t =
     (repr (heap s) None root t \<and> distinct (addrs t) \<and> (\<forall>a\<in>set (addrs t). a < fresh s))"

definition rb_good :: "store \<Rightarrow> ref \<Rightarrow> rbt \<Rightarrow> bool" where
  "rb_good s root T = (rb_state s root T \<and> rb_valid T \<and> sorted (map snd (inorder T)))"

section \<open>The Red-Black engine on the heap\<close>

subsection \<open>Field updates and the shape of the heap\<close>

text \<open>
  Reading a field after an assignment, and the frame rule: an assignment at an address
  outside a tree (or a path) leaves its representation as it was.
\<close>

lemma setLeft_reads [simp]:
  "left (setLeft a p h b) = (if b = a then p else left (h b))"
  "right (setLeft a p h b) = right (h b)"
  "parent (setLeft a p h b) = parent (h b)"
  "color (setLeft a p h b) = color (h b)"
  "value (setLeft a p h b) = value (h b)"
  by (simp_all add: setLeft_def)

lemma setRight_reads [simp]:
  "left (setRight a p h b) = left (h b)"
  "right (setRight a p h b) = (if b = a then p else right (h b))"
  "parent (setRight a p h b) = parent (h b)"
  "color (setRight a p h b) = color (h b)"
  "value (setRight a p h b) = value (h b)"
  by (simp_all add: setRight_def)

lemma setParent_reads [simp]:
  "left (setParent a p h b) = left (h b)"
  "right (setParent a p h b) = right (h b)"
  "parent (setParent a p h b) = (if b = a then p else parent (h b))"
  "color (setParent a p h b) = color (h b)"
  "value (setParent a p h b) = value (h b)"
  by (simp_all add: setParent_def)

lemma setColor_reads [simp]:
  "left (setColor a c h b) = left (h b)"
  "right (setColor a c h b) = right (h b)"
  "parent (setColor a c h b) = parent (h b)"
  "color (setColor a c h b) = (if b = a then c else color (h b))"
  "value (setColor a c h b) = value (h b)"
  by (simp_all add: setColor_def)

lemma repr_cong_heap:
  "\<forall>a\<in>set (addrs t). h' a = h a \<Longrightarrow> repr h' par p t = repr h par p t"
  by (induction t arbitrary: par p) auto

lemma repr_setLeft [simp]: "a \<notin> set (addrs t) \<Longrightarrow> repr (setLeft a q h) par p t = repr h par p t"
  by (rule repr_cong_heap) (auto simp: setLeft_def)
lemma repr_setRight [simp]: "a \<notin> set (addrs t) \<Longrightarrow> repr (setRight a q h) par p t = repr h par p t"
  by (rule repr_cong_heap) (auto simp: setRight_def)
lemma repr_setParent [simp]: "a \<notin> set (addrs t) \<Longrightarrow> repr (setParent a q h) par p t = repr h par p t"
  by (rule repr_cong_heap) (auto simp: setParent_def)
lemma repr_setColor [simp]: "a \<notin> set (addrs t) \<Longrightarrow> repr (setColor a c h) par p t = repr h par p t"
  by (rule repr_cong_heap) (auto simp: setColor_def)

lemma repr_ctx_cong_heap:
  "\<forall>a\<in>set (ctx_addrs cs). h' a = h a \<Longrightarrow> repr_ctx h' root p cs = repr_ctx h root p cs"
proof (induction cs arbitrary: p)
  case Nil then show ?case by simp
next
  case (Cons f cs)
  then show ?case
    by (cases f) (auto simp: repr_cong_heap[of _ h' h])
qed

lemma repr_ctx_setLeft [simp]: "a \<notin> set (ctx_addrs cs) \<Longrightarrow> repr_ctx (setLeft a q h) root p cs = repr_ctx h root p cs"
  by (rule repr_ctx_cong_heap) (auto simp: setLeft_def)
lemma repr_ctx_setRight [simp]: "a \<notin> set (ctx_addrs cs) \<Longrightarrow> repr_ctx (setRight a q h) root p cs = repr_ctx h root p cs"
  by (rule repr_ctx_cong_heap) (auto simp: setRight_def)
lemma repr_ctx_setParent [simp]: "a \<notin> set (ctx_addrs cs) \<Longrightarrow> repr_ctx (setParent a q h) root p cs = repr_ctx h root p cs"
  by (rule repr_ctx_cong_heap) (auto simp: setParent_def)
lemma repr_ctx_setColor [simp]: "a \<notin> set (ctx_addrs cs) \<Longrightarrow> repr_ctx (setColor a c h) root p cs = repr_ctx h root p cs"
  by (rule repr_ctx_cong_heap) (auto simp: setColor_def)

text \<open>
  The rotations, for a subtree below any path: the heap operation returns, and the heap
  then holds the rotated tree below the same path, with all \<open>parent\<close> links right and
  the root reference moved when the rotation is at the root.
\<close>

lemma repr_not_root: "repr h par p t \<Longrightarrow> a \<notin> set (addrs t) \<Longrightarrow> Some a \<noteq> p"
  by (cases t) auto

lemma leftRotate_zrel:
  assumes "zrel h root (Some x) cs (Node A x cx vx (Node B y cy vy C))"
  shows "\<exists>h' root'. leftRotate h root (Some x) = Some (h', root')
           \<and> zrel h' root' (Some y) cs (Node (Node A x cx vx B) y cy vy C)"
proof (cases cs)
  case Nil
  with assms show ?thesis
    by (cases B) (auto simp: zrel_def leftRotate_def)
next
  case (Cons f cs')
  show ?thesis
  proof (cases f)
    case (LeftOf pa pc pv r)
    with Cons assms show ?thesis
      by (cases B) (auto simp: zrel_def leftRotate_def)
  next
    case (RightOf l pa pc pv)
    from RightOf Cons assms have "repr h (Some pa) (left (h pa)) l" "x \<notin> set (addrs l)"
      by (simp_all add: zrel_def)
    then have "Some x \<noteq> left (h pa)"
      by (rule repr_not_root)
    with RightOf Cons assms show ?thesis
      by (cases B) (auto simp: zrel_def leftRotate_def)
  qed
qed

lemma rightRotate_zrel:
  assumes "zrel h root (Some y) cs (Node (Node A x cx vx B) y cy vy C)"
  shows "\<exists>h' root'. rightRotate h root (Some y) = Some (h', root')
           \<and> zrel h' root' (Some x) cs (Node A x cx vx (Node B y cy vy C))"
proof (cases cs)
  case Nil
  with assms show ?thesis
    by (cases B) (auto simp: zrel_def rightRotate_def)
next
  case (Cons f cs')
  show ?thesis
  proof (cases f)
    case (LeftOf pa pc pv r)
    with Cons assms show ?thesis
      by (cases B) (auto simp: zrel_def rightRotate_def)
  next
    case (RightOf l pa pc pv)
    from RightOf Cons assms have "repr h (Some pa) (left (h pa)) l" "y \<notin> set (addrs l)"
      by (simp_all add: zrel_def)
    then have "Some y \<noteq> left (h pa)"
      by (rule repr_not_root)
    with RightOf Cons assms show ?thesis
      by (cases B) (auto simp: zrel_def rightRotate_def)
  qed
qed

text \<open>
  Moving the focus of the representation one node up or down, and the six paths through
  one iteration of the loop of \<open>fixInsert\<close>: uncle RED (two mirror images), and uncle
  BLACK or absent with \<open>z\<close> an outer or an inner child (four).
\<close>

lemma zrel_LeftOf:
  "zrel h root p (LeftOf a c v r # cs) t = (zrel h root (Some a) cs (Node t a c v r) \<and> left (h a) = p)"
  by (cases cs) (auto simp: zrel_def)

lemma zrel_RightOf:
  "zrel h root p (RightOf l a c v # cs) t = (zrel h root (Some a) cs (Node l a c v t) \<and> right (h a) = p)"
  by (cases cs) (auto simp: zrel_def)

lemma zrel_setColor_root:
  "zrel h root (Some a) cs (Node l a c v r) \<Longrightarrow> zrel (setColor a c' h) root (Some a) cs (Node l a c' v r)"
  by (auto simp: zrel_def)

lemma isRed_repr: "repr h par q u \<Longrightarrow> isRed h q = (root_color u = RED)"
  by (cases u) (auto simp: isRed_def)

lemma zrel_parent: "zrel h root (Some z) cs t \<Longrightarrow> parent (h z) = ctx_parent cs"
  by (cases t) (auto simp: zrel_def)

lemma zrel_root_addr: "zrel h root (Some z) cs t \<Longrightarrow> \<exists>l c v r. t = Node l z c v r"
  by (cases t) (auto simp: zrel_def)

lemma fix_case_LL:
  assumes Z: "zrel h root (Some z) (LeftOf p RED pv s # LeftOf g gc gv u # cs) t"
    and u: "root_color u \<noteq> RED"
  shows "\<exists>h' root'. fixInsert_body h root z = Some (h', root', z)
           \<and> zrel h' root' (Some z) (LeftOf p BLACK pv (Node s g RED gv u) # cs) t"
proof -
  from Z have Zp: "zrel h root (Some p) (LeftOf g gc gv u # cs) (Node t p RED pv s)" and lp: "left (h p) = Some z"
    by (simp_all add: zrel_LeftOf)
  from Zp have Zg: "zrel h root (Some g) cs (Node (Node t p RED pv s) g gc gv u)" and lg: "left (h g) = Some p"
    by (simp_all add: zrel_LeftOf)
  have pz: "parent (h z) = Some p" using zrel_parent[OF Z] by simp
  have pp: "parent (h p) = Some g" using zrel_parent[OF Zp] by simp
  from Zg have ru: "repr h (Some g) (right (h g)) u" and rs: "repr h (Some p) (right (h p)) s"
    and zs: "z \<notin> set (addrs s)" and ne: "z \<noteq> p" "z \<noteq> g" "p \<noteq> g"
    using zrel_root_addr[OF Z] by (auto simp: zrel_def)
  have nred: "\<not> isRed h (right (h g))" using isRed_repr[OF ru] u by simp
  have nz: "Some z \<noteq> right (h p)" using repr_not_root[OF rs zs] .
  let ?h1 = "setColor g RED (setColor p BLACK h)"
  have "zrel (setColor p BLACK h) root (Some p) (LeftOf g gc gv u # cs) (Node t p BLACK pv s)"
    using zrel_setColor_root[OF Zp] .
  then have "zrel (setColor p BLACK h) root (Some g) cs (Node (Node t p BLACK pv s) g gc gv u)"
    by (simp add: zrel_LeftOf)
  then have "zrel ?h1 root (Some g) cs (Node (Node t p BLACK pv s) g RED gv u)"
    by (rule zrel_setColor_root)
  from rightRotate_zrel[OF this] obtain h' root' where
    rot: "rightRotate ?h1 root (Some g) = Some (h', root')"
    and Z': "zrel h' root' (Some p) cs (Node t p BLACK pv (Node s g RED gv u))" by blast
  from Z' zrel_root_addr[OF Z] have "left (h' p) = Some z" by (auto simp: zrel_def)
  with Z' have "zrel h' root' (Some z) (LeftOf p BLACK pv (Node s g RED gv u) # cs) t"
    by (simp add: zrel_LeftOf)
  moreover have "fixInsert_body h root z = Some (h', root', z)"
    using pz pp lg nred nz rot ne by (simp add: fixInsert_body_def)
  ultimately show ?thesis by blast
qed

lemma fix_case_LR:
  assumes Z: "zrel h root (Some z) (RightOf s p RED pv # LeftOf g gc gv u # cs) (Node zl z zc zv zr)"
    and u: "root_color u \<noteq> RED"
  shows "\<exists>h' root'. fixInsert_body h root z = Some (h', root', p)
           \<and> zrel h' root' (Some p) (LeftOf z BLACK zv (Node zr g RED gv u) # cs) (Node s p RED pv zl)"
proof -
  let ?t = "Node zl z zc zv zr"
  from Z have Zp: "zrel h root (Some p) (LeftOf g gc gv u # cs) (Node s p RED pv ?t)" and rp: "right (h p) = Some z"
    by (simp_all add: zrel_RightOf)
  from Zp have Zg: "zrel h root (Some g) cs (Node (Node s p RED pv ?t) g gc gv u)" and lg: "left (h g) = Some p"
    by (simp_all add: zrel_LeftOf)
  have pz: "parent (h z) = Some p" using zrel_parent[OF Z] by simp
  have pp: "parent (h p) = Some g" using zrel_parent[OF Zp] by simp
  from Zg have ru: "repr h (Some g) (right (h g)) u" and ne: "z \<noteq> p" "z \<noteq> g" "p \<noteq> g"
    by (auto simp: zrel_def)
  have nred: "\<not> isRed h (right (h g))" using isRed_repr[OF ru] u by simp
  from leftRotate_zrel[OF Zp] obtain h1 root1 where
    rot1: "leftRotate h root (Some p) = Some (h1, root1)"
    and Z1: "zrel h1 root1 (Some z) (LeftOf g gc gv u # cs) (Node (Node s p RED pv zl) z zc zv zr)" by blast
  from Z1 have pp1: "parent (h1 p) = Some z" and pz1: "parent (h1 z) = Some g"
    by (auto simp: zrel_def)
  let ?h3 = "setColor g RED (setColor z BLACK h1)"
  have "zrel (setColor z BLACK h1) root1 (Some z) (LeftOf g gc gv u # cs) (Node (Node s p RED pv zl) z BLACK zv zr)"
    using zrel_setColor_root[OF Z1] .
  then have "zrel (setColor z BLACK h1) root1 (Some g) cs (Node (Node (Node s p RED pv zl) z BLACK zv zr) g gc gv u)"
    by (simp add: zrel_LeftOf)
  then have "zrel ?h3 root1 (Some g) cs (Node (Node (Node s p RED pv zl) z BLACK zv zr) g RED gv u)"
    by (rule zrel_setColor_root)
  from rightRotate_zrel[OF this] obtain h' root' where
    rot2: "rightRotate ?h3 root1 (Some g) = Some (h', root')"
    and Z': "zrel h' root' (Some z) cs (Node (Node s p RED pv zl) z BLACK zv (Node zr g RED gv u))" by blast
  from Z' have "left (h' z) = Some p" by (auto simp: zrel_def)
  with Z' have "zrel h' root' (Some p) (LeftOf z BLACK zv (Node zr g RED gv u) # cs) (Node s p RED pv zl)"
    by (simp add: zrel_LeftOf)
  moreover have "fixInsert_body h root z = Some (h', root', p)"
    using pz pp lg nred rp rot1 pp1 pz1 rot2 ne by (simp add: fixInsert_body_def)
  ultimately show ?thesis by blast
qed

lemma fix_case_RR:
  assumes Z: "zrel h root (Some z) (RightOf s p RED pv # RightOf u g gc gv # cs) t"
    and u: "root_color u \<noteq> RED"
  shows "\<exists>h' root'. fixInsert_body h root z = Some (h', root', z)
           \<and> zrel h' root' (Some z) (RightOf (Node u g RED gv s) p BLACK pv # cs) t"
proof -
  from Z have Zp: "zrel h root (Some p) (RightOf u g gc gv # cs) (Node s p RED pv t)" and rp: "right (h p) = Some z"
    by (simp_all add: zrel_RightOf)
  from Zp have Zg: "zrel h root (Some g) cs (Node u g gc gv (Node s p RED pv t))" and rg: "right (h g) = Some p"
    by (simp_all add: zrel_RightOf)
  have pz: "parent (h z) = Some p" using zrel_parent[OF Z] by simp
  have pp: "parent (h p) = Some g" using zrel_parent[OF Zp] by simp
  from Zg have ru: "repr h (Some g) (left (h g)) u" and rs: "repr h (Some p) (left (h p)) s"
    and zs: "z \<notin> set (addrs s)" and pu: "p \<notin> set (addrs u)" and ne: "z \<noteq> p" "z \<noteq> g" "p \<noteq> g"
    using zrel_root_addr[OF Z] by (auto simp: zrel_def)
  have nred: "\<not> isRed h (left (h g))" using isRed_repr[OF ru] u by simp
  have nz: "Some z \<noteq> left (h p)" using repr_not_root[OF rs zs] .
  have np: "Some p \<noteq> left (h g)" using repr_not_root[OF ru pu] .
  let ?h1 = "setColor g RED (setColor p BLACK h)"
  have "zrel (setColor p BLACK h) root (Some p) (RightOf u g gc gv # cs) (Node s p BLACK pv t)"
    using zrel_setColor_root[OF Zp] .
  then have "zrel (setColor p BLACK h) root (Some g) cs (Node u g gc gv (Node s p BLACK pv t))"
    by (simp add: zrel_RightOf)
  then have "zrel ?h1 root (Some g) cs (Node u g RED gv (Node s p BLACK pv t))"
    by (rule zrel_setColor_root)
  from leftRotate_zrel[OF this] obtain h' root' where
    rot: "leftRotate ?h1 root (Some g) = Some (h', root')"
    and Z': "zrel h' root' (Some p) cs (Node (Node u g RED gv s) p BLACK pv t)" by blast
  from Z' zrel_root_addr[OF Z] have "right (h' p) = Some z" by (auto simp: zrel_def)
  with Z' have "zrel h' root' (Some z) (RightOf (Node u g RED gv s) p BLACK pv # cs) t"
    by (simp add: zrel_RightOf)
  moreover have "fixInsert_body h root z = Some (h', root', z)"
    using pz pp rg np nred nz rot ne by (simp add: fixInsert_body_def)
  ultimately show ?thesis by blast
qed

lemma fix_case_RL:
  assumes Z: "zrel h root (Some z) (LeftOf p RED pv s # RightOf u g gc gv # cs) (Node zl z zc zv zr)"
    and u: "root_color u \<noteq> RED"
  shows "\<exists>h' root'. fixInsert_body h root z = Some (h', root', p)
           \<and> zrel h' root' (Some p) (RightOf (Node u g RED gv zl) z BLACK zv # cs) (Node zr p RED pv s)"
proof -
  let ?t = "Node zl z zc zv zr"
  from Z have Zp: "zrel h root (Some p) (RightOf u g gc gv # cs) (Node ?t p RED pv s)" and lp: "left (h p) = Some z"
    by (simp_all add: zrel_LeftOf)
  from Zp have Zg: "zrel h root (Some g) cs (Node u g gc gv (Node ?t p RED pv s))" and rg: "right (h g) = Some p"
    by (simp_all add: zrel_RightOf)
  have pz: "parent (h z) = Some p" using zrel_parent[OF Z] by simp
  have pp: "parent (h p) = Some g" using zrel_parent[OF Zp] by simp
  from Zg have ru: "repr h (Some g) (left (h g)) u" and pu: "p \<notin> set (addrs u)"
    and ne: "z \<noteq> p" "z \<noteq> g" "p \<noteq> g"
    by (auto simp: zrel_def)
  have nred: "\<not> isRed h (left (h g))" using isRed_repr[OF ru] u by simp
  have np: "Some p \<noteq> left (h g)" using repr_not_root[OF ru pu] .
  from rightRotate_zrel[OF Zp] obtain h1 root1 where
    rot1: "rightRotate h root (Some p) = Some (h1, root1)"
    and Z1: "zrel h1 root1 (Some z) (RightOf u g gc gv # cs) (Node zl z zc zv (Node zr p RED pv s))" by blast
  from Z1 have pp1: "parent (h1 p) = Some z" and pz1: "parent (h1 z) = Some g"
    by (auto simp: zrel_def)
  let ?h3 = "setColor g RED (setColor z BLACK h1)"
  have "zrel (setColor z BLACK h1) root1 (Some z) (RightOf u g gc gv # cs) (Node zl z BLACK zv (Node zr p RED pv s))"
    using zrel_setColor_root[OF Z1] .
  then have "zrel (setColor z BLACK h1) root1 (Some g) cs (Node u g gc gv (Node zl z BLACK zv (Node zr p RED pv s)))"
    by (simp add: zrel_RightOf)
  then have "zrel ?h3 root1 (Some g) cs (Node u g RED gv (Node zl z BLACK zv (Node zr p RED pv s)))"
    by (rule zrel_setColor_root)
  from leftRotate_zrel[OF this] obtain h' root' where
    rot2: "leftRotate ?h3 root1 (Some g) = Some (h', root')"
    and Z': "zrel h' root' (Some z) cs (Node (Node u g RED gv zl) z BLACK zv (Node zr p RED pv s))" by blast
  from Z' have "right (h' z) = Some p" by (auto simp: zrel_def)
  with Z' have "zrel h' root' (Some p) (RightOf (Node u g RED gv zl) z BLACK zv # cs) (Node zr p RED pv s)"
    by (simp add: zrel_RightOf)
  moreover have "fixInsert_body h root z = Some (h', root', p)"
    using pz pp rg np nred lp rot1 pp1 pz1 rot2 ne by (simp add: fixInsert_body_def)
  ultimately show ?thesis by blast
qed

lemma zrel_frame:
  "zrel h root p (f # cs) t = (zrel h root (Some (frame_addr f)) cs (plug1 f t)
      \<and> (case f of LeftOf a c v r \<Rightarrow> left (h a) = p | RightOf l a c v \<Rightarrow> right (h a) = p))"
  by (cases f) (simp_all add: zrel_LeftOf zrel_RightOf)

lemma fix_case_A_left:
  assumes Z: "zrel h root (Some z) (f # LeftOf g gc gv (Node ul ua RED uv ur) # cs) t"
  shows "\<exists>h'. fixInsert_body h root z = Some (h', root, g)
           \<and> zrel h' root (Some g) cs
                (Node (plug1 (frame_recolor BLACK f) t) g RED gv (Node ul ua BLACK uv ur))"
proof -
  let ?p = "frame_addr f"
  from Z have Zp: "zrel h root (Some ?p) (LeftOf g gc gv (Node ul ua RED uv ur) # cs) (plug1 f t)"
    by (simp add: zrel_frame)
  from Zp have Zg: "zrel h root (Some g) cs (Node (plug1 f t) g gc gv (Node ul ua RED uv ur))" and lg: "left (h g) = Some ?p"
    by (simp_all add: zrel_LeftOf)
  have pz: "parent (h z) = Some ?p" using zrel_parent[OF Z] by simp
  have pp: "parent (h ?p) = Some g" using zrel_parent[OF Zp] by simp
  let ?h' = "setColor g RED (setColor ua BLACK (setColor ?p BLACK h))"
  from Zg have "right (h g) = Some ua" "color (h ua) = RED" by (auto simp: zrel_def)
  then have body: "fixInsert_body h root z = Some (?h', root, g)"
    using pz pp lg by (simp add: fixInsert_body_def isRed_def)
  from Zg have "zrel ?h' root (Some g) cs (Node (plug1 (frame_recolor BLACK f) t) g RED gv (Node ul ua BLACK uv ur))"
    by (cases f) (auto simp: zrel_def)
  with body show ?thesis by blast
qed

lemma fix_case_A_right:
  assumes Z: "zrel h root (Some z) (f # RightOf (Node ul ua RED uv ur) g gc gv # cs) t"
  shows "\<exists>h'. fixInsert_body h root z = Some (h', root, g)
           \<and> zrel h' root (Some g) cs
                (Node (Node ul ua BLACK uv ur) g RED gv (plug1 (frame_recolor BLACK f) t))"
proof -
  let ?p = "frame_addr f"
  from Z have Zp: "zrel h root (Some ?p) (RightOf (Node ul ua RED uv ur) g gc gv # cs) (plug1 f t)"
    by (simp add: zrel_frame)
  from Zp have Zg: "zrel h root (Some g) cs (Node (Node ul ua RED uv ur) g gc gv (plug1 f t))" and rg: "right (h g) = Some ?p"
    by (simp_all add: zrel_RightOf)
  have pz: "parent (h z) = Some ?p" using zrel_parent[OF Z] by simp
  have pp: "parent (h ?p) = Some g" using zrel_parent[OF Zp] by simp
  let ?h' = "setColor g RED (setColor ua BLACK (setColor ?p BLACK h))"
  from Zg have "left (h g) = Some ua" "color (h ua) = RED" "?p \<noteq> ua" by (cases f; auto simp: zrel_def)+
  then have body: "fixInsert_body h root z = Some (?h', root, g)"
    using pz pp rg by (simp add: fixInsert_body_def isRed_def)
  from Zg have "zrel ?h' root (Some g) cs (Node (Node ul ua BLACK uv ur) g RED gv (plug1 (frame_recolor BLACK f) t))"
    by (cases f) (auto simp: zrel_def)
  with body show ?thesis by blast
qed

text \<open>
  One iteration from a state that satisfies the invariant: it returns, the invariant
  holds again, the in-order sequence is the same, and either the guard is now false or
  \<open>z\<close> has moved to its grandparent and the path is two steps shorter.
\<close>

lemma inorder_plug: "inorder t1 = inorder t2 \<Longrightarrow> inorder (plug cs t1) = inorder (plug cs t2)"
proof (induction cs arbitrary: t1 t2)
  case Nil then show ?case by simp
next
  case (Cons f cs)
  have "inorder (plug1 f t1) = inorder (plug1 f t2)" using Cons.prems by (cases f) auto
  from Cons.IH[OF this] show ?case by simp
qed

lemma cond_zrel:
  "zrel h root (Some z) cs t \<Longrightarrow>
   fixInsert_cond h z = (case cs of [] \<Rightarrow> False | f # _ \<Rightarrow> frame_color f = RED)"
proof (cases cs)
  case Nil
  assume "zrel h root (Some z) cs t"
  from zrel_parent[OF this] Nil show ?thesis by (simp add: fixInsert_cond_def)
next
  case (Cons f cs')
  assume Z: "zrel h root (Some z) cs t"
  from Z Cons have "color (h (frame_addr f)) = frame_color f"
    by (cases f) (auto simp: zrel_def)
  with zrel_parent[OF Z] Cons show ?thesis by (simp add: fixInsert_cond_def)
qed

lemma root_color_cases: "root_color u = RED \<Longrightarrow> \<exists>ul ua uv ur. u = Node ul ua RED uv ur"
  by (cases u) auto

lemma color_neq_RED [simp]: "(c \<noteq> RED) = (c = BLACK)"
  by (cases c) auto

lemma body_step:
  assumes Z: "zrel h root (Some z) cs t" and red: "root_color t = RED" and sub: "rbsub t"
    and ctx: "ctx_ok cs (bh t)" and cond: "fixInsert_cond h z"
  shows "\<exists>h' root' z' cs' t'. fixInsert_body h root z = Some (h', root', z')
           \<and> zrel h' root' (Some z') cs' t' \<and> root_color t' = RED \<and> rbsub t'
           \<and> ctx_ok cs' (bh t') \<and> inorder (plug cs' t') = inorder (plug cs t)
           \<and> (\<not> fixInsert_cond h' z'
                \<or> length cs' + 2 = length cs
                  \<and> Option.bind (parent (h z)) (\<lambda>p. parent (h p)) = Some z')"
proof -
  from cond cond_zrel[OF Z] obtain f cs1 where cs: "cs = f # cs1" and fr: "frame_color f = RED"
    by (auto split: list.splits)
  with ctx obtain g cs2 where cs1: "cs1 = g # cs2" and gb: "frame_color g = BLACK"
    by (auto split: list.splits)
  from zrel_root_addr[OF Z] obtain zl zc zv zr where t: "t = Node zl z zc zv zr" by blast
  with red have zc: "zc = RED" by simp
  have gp: "Option.bind (parent (h z)) (\<lambda>p. parent (h p)) = Some (frame_addr g)"
  proof -
    from Z cs have "zrel h root (Some (frame_addr f)) cs1 (plug1 f t)" by (simp add: zrel_frame)
    from zrel_parent[OF this] zrel_parent[OF Z] cs cs1 show ?thesis by simp
  qed
  show ?thesis
  proof (cases g)
    case (LeftOf ga gc gv u)
    show ?thesis
    proof (cases "root_color u = RED")
      case True
      then obtain ul ua uv ur where u: "u = Node ul ua RED uv ur" using root_color_cases by blast
      from fix_case_A_left[OF Z[unfolded cs cs1 LeftOf u]] obtain h' where
        b: "fixInsert_body h root z = Some (h', root, ga)"
        and Z': "zrel h' root (Some ga) cs2 (Node (plug1 (frame_recolor BLACK f) t) ga RED gv (Node ul ua BLACK uv ur))"
        by blast
      let ?t' = "Node (plug1 (frame_recolor BLACK f) t) ga RED gv (Node ul ua BLACK uv ur)"
      have 1: "root_color ?t' = RED" by simp
      have 2: "rbsub ?t'" using sub ctx cs cs1 LeftOf u fr gb t
        by (cases f) auto
      have 3: "ctx_ok cs2 (bh ?t')" using ctx cs cs1 LeftOf u fr gb
        by (cases f) auto
      have io: "inorder ?t' = inorder (plug1 g (plug1 f t))" using LeftOf u by (cases f) auto
      have 4: "inorder (plug cs2 ?t') = inorder (plug cs t)"
        unfolding cs cs1 using inorder_plug[OF io, of cs2] by simp
      show ?thesis using b Z' 1 2 3 4 cs cs1 gp \<open>g = _\<close>
        by (intro exI[of _ h'] exI[of _ root] exI[of _ ga] exI[of _ cs2] exI[of _ ?t']) simp
    next
      case False
      show ?thesis
      proof (cases f)
        case (LeftOf p pc pv s)
        with fr have pc: "pc = RED" by simp
        from fix_case_LL[OF Z[unfolded cs cs1 \<open>g = _\<close> LeftOf pc] False] obtain h' root' where
          b: "fixInsert_body h root z = Some (h', root', z)"
          and Z': "zrel h' root' (Some z) (LeftOf p BLACK pv (Node s ga RED gv u) # cs2) t" by blast
        let ?cs' = "LeftOf p BLACK pv (Node s ga RED gv u) # cs2"
        have 3: "ctx_ok ?cs' (bh t)" using ctx cs cs1 \<open>g = _\<close> LeftOf pc gb False by auto
        have io: "inorder (plug1 (LeftOf p BLACK pv (Node s ga RED gv u)) t) = inorder (plug1 g (plug1 f t))"
          using LeftOf \<open>g = _\<close> by simp
        have 4: "inorder (plug ?cs' t) = inorder (plug cs t)"
          unfolding cs cs1 using inorder_plug[OF io, of cs2] by simp
        have 5: "\<not> fixInsert_cond h' z" using cond_zrel[OF Z'] by simp
        show ?thesis using b Z' red sub 3 4 5 by blast
      next
        case (RightOf s p pc pv)
        with fr have pc: "pc = RED" by simp
        from fix_case_LR[OF Z[unfolded cs cs1 \<open>g = _\<close> RightOf pc t] False] obtain h' root' where
          b: "fixInsert_body h root z = Some (h', root', p)"
          and Z': "zrel h' root' (Some p) (LeftOf z BLACK zv (Node zr ga RED gv u) # cs2) (Node s p RED pv zl)" by blast
        let ?cs' = "LeftOf z BLACK zv (Node zr ga RED gv u) # cs2"
        let ?t' = "Node s p RED pv zl"
        have 1: "root_color ?t' = RED" by simp
        have 2: "rbsub ?t'" using sub ctx cs cs1 RightOf pc t zc by auto
        have 3: "ctx_ok ?cs' (bh ?t')" using sub ctx cs cs1 \<open>g = _\<close> RightOf pc gb False t zc by auto
        have io: "inorder (plug1 (LeftOf z BLACK zv (Node zr ga RED gv u)) ?t') = inorder (plug1 g (plug1 f t))"
          using RightOf \<open>g = _\<close> t by simp
        have 4: "inorder (plug ?cs' ?t') = inorder (plug cs t)"
          unfolding cs cs1 using inorder_plug[OF io, of cs2] by simp
        have 5: "\<not> fixInsert_cond h' p" using cond_zrel[OF Z'] by simp
        show ?thesis using b Z' 1 2 3 4 5 by blast
      qed
    qed
  next
    case (RightOf u ga gc gv)
    show ?thesis
    proof (cases "root_color u = RED")
      case True
      then obtain ul ua uv ur where u: "u = Node ul ua RED uv ur" using root_color_cases by blast
      from fix_case_A_right[OF Z[unfolded cs cs1 RightOf u]] obtain h' where
        b: "fixInsert_body h root z = Some (h', root, ga)"
        and Z': "zrel h' root (Some ga) cs2 (Node (Node ul ua BLACK uv ur) ga RED gv (plug1 (frame_recolor BLACK f) t))"
        by blast
      let ?t' = "Node (Node ul ua BLACK uv ur) ga RED gv (plug1 (frame_recolor BLACK f) t)"
      have 1: "root_color ?t' = RED" by simp
      have 2: "rbsub ?t'" using sub ctx cs cs1 RightOf u fr gb t
        by (cases f) auto
      have 3: "ctx_ok cs2 (bh ?t')" using ctx cs cs1 RightOf u fr gb
        by (cases f) auto
      have io: "inorder ?t' = inorder (plug1 g (plug1 f t))" using RightOf u by (cases f) auto
      have 4: "inorder (plug cs2 ?t') = inorder (plug cs t)"
        unfolding cs cs1 using inorder_plug[OF io, of cs2] by simp
      show ?thesis using b Z' 1 2 3 4 cs cs1 gp \<open>g = _\<close>
        by (intro exI[of _ h'] exI[of _ root] exI[of _ ga] exI[of _ cs2] exI[of _ ?t']) simp
    next
      case False
      show ?thesis
      proof (cases f)
        case (RightOf s p pc pv)
        with fr have pc: "pc = RED" by simp
        from fix_case_RR[OF Z[unfolded cs cs1 \<open>g = _\<close> RightOf pc] False] obtain h' root' where
          b: "fixInsert_body h root z = Some (h', root', z)"
          and Z': "zrel h' root' (Some z) (RightOf (Node u ga RED gv s) p BLACK pv # cs2) t" by blast
        let ?cs' = "RightOf (Node u ga RED gv s) p BLACK pv # cs2"
        have 3: "ctx_ok ?cs' (bh t)" using ctx cs cs1 \<open>g = _\<close> RightOf pc gb False by auto
        have io: "inorder (plug1 (RightOf (Node u ga RED gv s) p BLACK pv) t) = inorder (plug1 g (plug1 f t))"
          using RightOf \<open>g = _\<close> by simp
        have 4: "inorder (plug ?cs' t) = inorder (plug cs t)"
          unfolding cs cs1 using inorder_plug[OF io, of cs2] by simp
        have 5: "\<not> fixInsert_cond h' z" using cond_zrel[OF Z'] by simp
        show ?thesis using b Z' red sub 3 4 5 by blast
      next
        case (LeftOf p pc pv s)
        with fr have pc: "pc = RED" by simp
        from fix_case_RL[OF Z[unfolded cs cs1 \<open>g = _\<close> LeftOf pc t] False] obtain h' root' where
          b: "fixInsert_body h root z = Some (h', root', p)"
          and Z': "zrel h' root' (Some p) (RightOf (Node u ga RED gv zl) z BLACK zv # cs2) (Node zr p RED pv s)" by blast
        let ?cs' = "RightOf (Node u ga RED gv zl) z BLACK zv # cs2"
        let ?t' = "Node zr p RED pv s"
        have 1: "root_color ?t' = RED" by simp
        have 2: "rbsub ?t'" using sub ctx cs cs1 LeftOf pc t zc by auto
        have 3: "ctx_ok ?cs' (bh ?t')" using sub ctx cs cs1 \<open>g = _\<close> LeftOf pc gb False t zc by auto
        have io: "inorder (plug1 (RightOf (Node u ga RED gv zl) z BLACK zv) ?t') = inorder (plug1 g (plug1 f t))"
          using LeftOf \<open>g = _\<close> t by simp
        have 4: "inorder (plug ?cs' ?t') = inorder (plug cs t)"
          unfolding cs cs1 using inorder_plug[OF io, of cs2] by simp
        have 5: "\<not> fixInsert_cond h' p" using cond_zrel[OF Z'] by simp
        show ?thesis using b Z' 1 2 3 4 5 by blast
      qed
    qed
  qed
qed

subsection \<open>The loop of fixInsert\<close>

text \<open>
  From the invariant the loop ends within half the length of the path, and the bounded
  iteration gives the result of the loop in the option monad.
\<close>

lemma cond_two_frames:
  assumes Z: "zrel h root (Some z) cs t" and ctx: "ctx_ok cs k" and cond: "fixInsert_cond h z"
  shows "2 \<le> length cs"
proof -
  from cond cond_zrel[OF Z] obtain f cs1 where cs: "cs = f # cs1" and fr: "frame_color f = RED"
    by (auto split: list.splits)
  with ctx obtain g cs2 where cs1: "cs1 = g # cs2"
    by (auto split: list.splits)
  show ?thesis using cs cs1 by simp
qed

lemma fix_iter:
  assumes "zrel h root (Some z) cs t" "root_color t = RED" "rbsub t" "ctx_ok cs (bh t)"
  shows "\<exists>n h' root' z' cs' t'. n \<le> length cs div 2
           \<and> fixInsert_iter n h root z = Some (h', root', z') \<and> \<not> fixInsert_cond h' z'
           \<and> zrel h' root' (Some z') cs' t' \<and> root_color t' = RED \<and> rbsub t'
           \<and> ctx_ok cs' (bh t') \<and> inorder (plug cs' t') = inorder (plug cs t)"
  using assms
proof (induction cs arbitrary: h root z t rule: length_induct)
  case (1 cs)
  note Z = "1.prems"(1) and red = "1.prems"(2) and sub = "1.prems"(3) and ctx = "1.prems"(4)
  show ?case
  proof (cases "fixInsert_cond h z")
    case False
    have "fixInsert_iter 0 h root z = Some (h, root, z)" by simp
    with False Z red sub ctx show ?thesis by (intro exI[of _ 0]) blast
  next
    case True
    from body_step[OF Z red sub ctx True] obtain h1 root1 z1 cs1 t1 where
      b: "fixInsert_body h root z = Some (h1, root1, z1)"
      and Z1: "zrel h1 root1 (Some z1) cs1 t1" and red1: "root_color t1 = RED" and sub1: "rbsub t1"
      and ctx1: "ctx_ok cs1 (bh t1)" and io1: "inorder (plug cs1 t1) = inorder (plug cs t)"
      and prog: "\<not> fixInsert_cond h1 z1 \<or> length cs1 + 2 = length cs" by blast
    have two: "2 \<le> length cs" using cond_two_frames[OF Z ctx True] .
    show ?thesis
    proof (cases "fixInsert_cond h1 z1")
      case False
      have "fixInsert_iter 1 h root z = Some (h1, root1, z1)" using True b by simp
      moreover have "(1::nat) \<le> length cs div 2" using two by simp
      ultimately show ?thesis using False Z1 red1 sub1 ctx1 io1 by (intro exI[of _ 1]) blast
    next
      case c1: True
      with prog have len: "length cs1 + 2 = length cs" by simp
      then have "length cs1 < length cs" by simp
      with "1.IH" Z1 red1 sub1 ctx1 obtain n h' root' z' cs' t' where
        n: "n \<le> length cs1 div 2" and it: "fixInsert_iter n h1 root1 z1 = Some (h', root', z')"
        and nc: "\<not> fixInsert_cond h' z'" and Z': "zrel h' root' (Some z') cs' t'"
        and r': "root_color t' = RED" "rbsub t'" "ctx_ok cs' (bh t')"
        and io': "inorder (plug cs' t') = inorder (plug cs1 t1)" by blast
      have "fixInsert_iter (Suc n) h root z = Some (h', root', z')" using True b it by simp
      moreover have "Suc n \<le> length cs div 2" using n len by arith
      ultimately show ?thesis using nc Z' r' io' io1 by (intro exI[of _ "Suc n"]) auto
    qed
  qed
qed

lemma iter_loop:
  "fixInsert_iter n h root z = Some (h', root', z') \<Longrightarrow> \<not> fixInsert_cond h' z' \<Longrightarrow>
   fixInsert_loop h root z = Some (h', root', z')"
proof (induction n arbitrary: h root z)
  case 0
  then show ?case by (subst fixInsert_loop.simps) simp
next
  case (Suc n)
  show ?case
  proof (cases "fixInsert_cond h z")
    case False
    with Suc.prems show ?thesis by (subst fixInsert_loop.simps) simp
  next
    case True
    with Suc.prems obtain h1 root1 z1 where b: "fixInsert_body h root z = Some (h1, root1, z1)"
      and it: "fixInsert_iter n h1 root1 z1 = Some (h', root', z')"
      by (auto split: bind_splits)
    from Suc.IH[OF it Suc.prems(2)] True b show ?thesis
      by (subst fixInsert_loop.simps) simp
  qed
qed

subsection \<open>Paths, colours and the walk\<close>

text \<open>
  A well-coloured tree with a BLACK root gives a good path to each of its positions, and a
  good path closes to a well-coloured tree. The walk of \<open>redBlackInsert\<close> ends at a
  \<open>null\<close> position whose path it has chosen by the comparison \<open>z.value < x.value\<close>.
\<close>

lemma inorder_plug_split: "inorder (plug cs t) = ctx_before cs @ inorder t @ ctx_after cs"
proof (induction cs arbitrary: t)
  case Nil then show ?case by simp
next
  case (Cons f cs) then show ?case by (cases f) simp_all
qed

lemma addrs_inorder: "addrs t = map fst (inorder t)"
  by (induction t) auto

lemma zrel_plug:
  "zrel h root p cs t \<Longrightarrow> repr h None root (plug cs t) \<and> distinct (addrs (plug cs t))
     \<and> set (addrs (plug cs t)) = set (ctx_addrs cs) \<union> set (addrs t)"
proof (induction cs arbitrary: p t)
  case Nil
  then show ?case by (auto simp: zrel_def)
next
  case (Cons f cs)
  from Cons.prems have "zrel h root (Some (frame_addr f)) cs (plug1 f t)" by (simp add: zrel_frame)
  from Cons.IH[OF this] show ?case by (cases f) auto
qed

lemma plug_ok:
  "ctx_ok cs (bh t) \<Longrightarrow> rbsub t
   \<Longrightarrow> (case cs of [] \<Rightarrow> True | f # _ \<Rightarrow> frame_color f = RED \<longrightarrow> root_color t = BLACK)
   \<Longrightarrow> rbsub (plug cs t) \<and> (cs \<noteq> [] \<longrightarrow> root_color (plug cs t) = BLACK)"
proof (induction cs arbitrary: t)
  case Nil then show ?case by simp
next
  case (Cons f cs)
  have 1: "ctx_ok cs (bh (plug1 f t))" using Cons.prems by (cases f) auto
  have 2: "rbsub (plug1 f t)" using Cons.prems by (cases f) auto
  have 3: "(case cs of [] \<Rightarrow> True | g # _ \<Rightarrow> frame_color g = RED \<longrightarrow> root_color (plug1 f t) = BLACK)"
    using Cons.prems by (cases f; cases "frame_color f") (auto split: list.splits)
  have 4: "cs = [] \<Longrightarrow> root_color (plug1 f t) = BLACK"
    using Cons.prems by (cases f; cases "frame_color f") auto
  from Cons.IH[OF 1 2 3] 4 show ?case by (cases cs) auto
qed

lemma root_color_plug1 [simp]: "root_color (plug1 f t) = frame_color f"
  by (cases f) auto

lemma ctx_of_plug:
  "rbsub (plug cs t) \<Longrightarrow> root_color (plug cs t) = BLACK \<Longrightarrow>
   ctx_ok cs (bh t) \<and> rbsub t
   \<and> (case cs of [] \<Rightarrow> root_color t = BLACK | f # _ \<Rightarrow> frame_color f = RED \<longrightarrow> root_color t = BLACK)"
proof (induction cs arbitrary: t)
  case Nil then show ?case by simp
next
  case (Cons f cs)
  from Cons.IH[of "plug1 f t"] Cons.prems
  have ih: "ctx_ok cs (bh (plug1 f t))" "rbsub (plug1 f t)"
    "(case cs of [] \<Rightarrow> frame_color f = BLACK | g # _ \<Rightarrow> frame_color g = RED \<longrightarrow> frame_color f = BLACK)"
    by (auto split: list.splits)
  from ih(3) have top: "frame_color f = RED \<Longrightarrow> (case cs of [] \<Rightarrow> False | g # _ \<Rightarrow> frame_color g = BLACK)"
    by (cases cs) auto
  from ih(1,2) top show ?case
    by (cases f) auto
qed

lemma walk_zrel:
  "zrel h root x cs t \<Longrightarrow>
   \<exists>cs'. redBlackInsert_walk h k x (ctx_parent cs) = Some (ctx_parent (cs' @ cs))
        \<and> zrel h root None (cs' @ cs) Leaf \<and> plug (cs' @ cs) Leaf = plug cs t
        \<and> (\<forall>f\<in>set cs'. routed k f)"
proof (induction t arbitrary: x cs)
  case Leaf
  then have "x = None" by (simp add: zrel_def)
  with Leaf show ?case by (intro exI[of _ "[]"]) (simp add: redBlackInsert_walk.simps)
next
  case (Node l a c v r)
  then have x: "x = Some a" and va: "value (h a) = v" by (simp_all add: zrel_def)
  show ?case
  proof (cases "k < v")
    case True
    let ?f = "LeftOf a c v r"
    from Node.prems x have "zrel h root (left (h a)) (?f # cs) l" by (simp add: zrel_LeftOf)
    from Node.IH(1)[OF this] obtain cs' where
      w: "redBlackInsert_walk h k (left (h a)) (ctx_parent (?f # cs)) = Some (ctx_parent (cs' @ ?f # cs))"
      and Z: "zrel h root None (cs' @ ?f # cs) Leaf" and p: "plug (cs' @ ?f # cs) Leaf = plug (?f # cs) l"
      and r: "\<forall>f\<in>set cs'. routed k f" by blast
    have "redBlackInsert_walk h k x (ctx_parent cs) = Some (ctx_parent ((cs' @ [?f]) @ cs))"
      using w x va True by (subst redBlackInsert_walk.simps) simp
    with Z p r True show ?thesis by (intro exI[of _ "cs' @ [?f]"]) simp
  next
    case False
    let ?f = "RightOf l a c v"
    from Node.prems x have "zrel h root (right (h a)) (?f # cs) r" by (simp add: zrel_RightOf)
    from Node.IH(2)[OF this] obtain cs' where
      w: "redBlackInsert_walk h k (right (h a)) (ctx_parent (?f # cs)) = Some (ctx_parent (cs' @ ?f # cs))"
      and Z: "zrel h root None (cs' @ ?f # cs) Leaf" and p: "plug (cs' @ ?f # cs) Leaf = plug (?f # cs) r"
      and r: "\<forall>f\<in>set cs'. routed k f" by blast
    have "redBlackInsert_walk h k x (ctx_parent cs) = Some (ctx_parent ((cs' @ [?f]) @ cs))"
      using w x va False by (subst redBlackInsert_walk.simps) simp
    with Z p r False show ?thesis by (intro exI[of _ "cs' @ [?f]"]) simp
  qed
qed

subsection \<open>One insertion\<close>

text \<open>
  \<open>redBlackInsert\<close> on a store that holds a valid tree returns a store that holds a valid
  tree again, with the new node at the position that the walk chose.
\<close>

lemma newRedBlackNode_reads [simp]:
  "value (newRedBlackNode v) = v" "left (newRedBlackNode v) = None" "right (newRedBlackNode v) = None"
  "parent (newRedBlackNode v) = None" "color (newRedBlackNode v) = RED"
  by (simp_all add: newRedBlackNode_def)

lemma attach_zrel:
  assumes S: "rb_state s root T"
  shows "\<exists>h1 root1 cs. redBlackInsert_attach s root v = Some (h1, root1, fresh s)
           \<and> zrel h1 root1 (Some (fresh s)) cs (Node Leaf (fresh s) RED v Leaf)
           \<and> plug cs Leaf = T \<and> (\<forall>f\<in>set cs. routed v f)"
proof -
  let ?z = "fresh s"
  let ?h0 = "(heap s)(?z := newRedBlackNode v)"
  let ?t0 = "Node Leaf ?z RED v Leaf"
  from S have zT: "?z \<notin> set (addrs T)" by (auto simp: rb_state_def)
  have "repr ?h0 None root T = repr (heap s) None root T"
    by (rule repr_cong_heap) (use zT in auto)
  with S have "zrel ?h0 root root [] T" by (simp add: zrel_def rb_state_def)
  from walk_zrel[OF this, of v] obtain cs where
    w: "redBlackInsert_walk ?h0 v root None = Some (ctx_parent cs)"
    and Z: "zrel ?h0 root None cs Leaf" and p: "plug cs Leaf = T"
    and r: "\<forall>f\<in>set cs. routed v f" by auto
  from zrel_plug[OF Z] p zT have zcs: "?z \<notin> set (ctx_addrs cs)" by simp
  show ?thesis
  proof (cases cs)
    case Nil
    have "redBlackInsert_attach s root v = Some (setParent ?z None ?h0, Some ?z, ?z)"
      using w Nil by (simp add: redBlackInsert_attach_def Let_def)
    moreover have "zrel (setParent ?z None ?h0) (Some ?z) (Some ?z) [] ?t0"
      by (simp add: zrel_def)
    ultimately show ?thesis using p r Nil by blast
  next
    case (Cons f cs')
    show ?thesis
    proof (cases f)
      case (LeftOf a c k rt)
      with r Cons have lt: "v < k" by simp
      from Z Cons LeftOf have ka: "value (?h0 a) = k" and az: "a \<noteq> ?z"
        using zcs by (auto simp: zrel_def)
      let ?h2 = "setLeft a (Some ?z) (setParent ?z (Some a) ?h0)"
      have "redBlackInsert_attach s root v = Some (?h2, root, ?z)"
        using w Cons LeftOf lt ka az by (simp add: redBlackInsert_attach_def Let_def)
      moreover have "zrel ?h2 root (Some ?z) cs ?t0"
        using Z zcs Cons LeftOf az by (auto simp: zrel_def)
      ultimately show ?thesis using p r by blast
    next
      case (RightOf lt a c k)
      with r Cons have ge: "\<not> v < k" by simp
      from Z Cons RightOf have ka: "value (?h0 a) = k" and az: "a \<noteq> ?z"
        using zcs by (auto simp: zrel_def)
      let ?h2 = "setRight a (Some ?z) (setParent ?z (Some a) ?h0)"
      have "redBlackInsert_attach s root v = Some (?h2, root, ?z)"
        using w Cons RightOf ge ka az by (simp add: redBlackInsert_attach_def Let_def)
      moreover have "zrel ?h2 root (Some ?z) cs ?t0"
        using Z zcs Cons RightOf az by (auto simp: zrel_def)
      ultimately show ?thesis using p r by blast
    qed
  qed
qed

lemma set_addrs_plug: "set (addrs (plug cs t)) = set (ctx_addrs cs) \<union> set (addrs t)"
proof (induction cs arbitrary: t)
  case Nil then show ?case by simp
next
  case (Cons f cs) then show ?case by (cases f) auto
qed

lemma fixInsert_correct:
  assumes Z: "zrel h root (Some z) cs t" and red: "root_color t = RED" and sub: "rbsub t"
    and ctx: "ctx_ok cs (bh t)"
  shows "\<exists>h' r T'. fixInsert h root z = Some (h', Some r)
           \<and> repr h' None (Some r) T' \<and> distinct (addrs T') \<and> rb_valid T'
           \<and> inorder T' = inorder (plug cs t)"
proof -
  from fix_iter[OF Z red sub ctx] obtain n h1 root1 z1 cs1 t1 where
    it: "fixInsert_iter n h root z = Some (h1, root1, z1)" and nc: "\<not> fixInsert_cond h1 z1"
    and Z1: "zrel h1 root1 (Some z1) cs1 t1" and sub1: "rbsub t1" and ctx1: "ctx_ok cs1 (bh t1)"
    and io: "inorder (plug cs1 t1) = inorder (plug cs t)" by blast
  have loop: "fixInsert_loop h root z = Some (h1, root1, z1)" using iter_loop[OF it nc] .
  from zrel_plug[OF Z1] have R: "repr h1 None root1 (plug cs1 t1)" and D: "distinct (addrs (plug cs1 t1))"
    by simp_all
  from nc cond_zrel[OF Z1]
  have side: "(case cs1 of [] \<Rightarrow> True | f # _ \<Rightarrow> frame_color f = RED \<longrightarrow> root_color t1 = BLACK)"
    by (auto split: list.splits)
  from plug_ok[OF ctx1 sub1 side] have ok: "rbsub (plug cs1 t1)" by simp
  from zrel_root_addr[OF Z1] have "inorder t1 \<noteq> []" by auto
  then have "plug cs1 t1 \<noteq> Leaf" using inorder_plug_split[of cs1 t1] by auto
  then obtain L r c k R' where T: "plug cs1 t1 = Node L r c k R'" by (cases "plug cs1 t1") auto
  let ?T' = "Node L r BLACK k R'"
  from R T have root1: "root1 = Some r" by simp
  have "fixInsert h root z = Some (setColor r BLACK h1, Some r)"
    using loop root1 by (simp add: fixInsert_def)
  moreover have "repr (setColor r BLACK h1) None (Some r) ?T'" using R D T by auto
  moreover have "distinct (addrs ?T')" using D T by simp
  moreover have "rb_valid ?T'" using ok T by (simp add: rb_valid_def)
  moreover have "inorder ?T' = inorder (plug cs t)" using io T by simp
  ultimately show ?thesis by blast
qed

lemma redBlackInsert_correct:
  assumes S: "rb_state s root T" and V: "rb_valid T"
  shows "\<exists>s' r T' cs. redBlackInsert s root v = Some (s', Some r)
           \<and> rb_state s' (Some r) T' \<and> rb_valid T' \<and> fresh s' = Suc (fresh s)
           \<and> plug cs Leaf = T \<and> (\<forall>f\<in>set cs. routed v f)
           \<and> inorder T' = inorder (plug cs (Node Leaf (fresh s) RED v Leaf))"
proof -
  let ?t0 = "Node Leaf (fresh s) RED v Leaf"
  from attach_zrel[OF S, of v] obtain h1 root1 cs where
    a: "redBlackInsert_attach s root v = Some (h1, root1, fresh s)"
    and Z: "zrel h1 root1 (Some (fresh s)) cs ?t0"
    and p: "plug cs Leaf = T" and r: "\<forall>f\<in>set cs. routed v f" by blast
  from V p have "ctx_ok cs (bh Leaf)" using ctx_of_plug[of cs Leaf] by (simp add: rb_valid_def)
  then have ctx: "ctx_ok cs (bh ?t0)" by simp
  from fixInsert_correct[OF Z _ _ ctx] obtain h' r' T' where
    f: "fixInsert h1 root1 (fresh s) = Some (h', Some r')"
    and R: "repr h' None (Some r') T'" and D: "distinct (addrs T')" and V': "rb_valid T'"
    and io: "inorder T' = inorder (plug cs ?t0)" by auto
  let ?s' = "\<lparr>heap = h', fresh = Suc (fresh s)\<rparr>"
  have ins: "redBlackInsert s root v = Some (?s', Some r')"
    using a f by (simp add: redBlackInsert_def)
  have "set (addrs T') = set (addrs (plug cs ?t0))" using io by (simp add: addrs_inorder)
  also have "\<dots> = set (addrs T) \<union> {fresh s}"
    using set_addrs_plug[of cs ?t0] set_addrs_plug[of cs Leaf] p by simp
  finally have "\<forall>a\<in>set (addrs T'). a < Suc (fresh s)" using S by (auto simp: rb_state_def)
  with R D have "rb_state ?s' (Some r') T'" by (simp add: rb_state_def)
  with ins V' p r io show ?thesis by (intro exI[of _ ?s'] exI[of _ r'] exI[of _ T'] exI[of _ cs]) simp
qed

subsection \<open>Snapshots and key order\<close>

text \<open>
  \<open>cloneTree\<close> returns the tree that the heap holds, without addresses; the colour
  invariants of the tree are the three properties of the snapshot; the walk puts the key
  behind the keys that are not greater.
\<close>

lemma cloneTree_repr: "repr h par p t \<Longrightarrow> cloneTree h p = Some (erase t)"
proof (induction t arbitrary: par p)
  case Leaf
  then show ?case by (subst cloneTree.simps) simp
next
  case (Node l a c v r)
  from Node.prems have p: "p = Some a" and l: "repr h (Some a) (left (h a)) l"
    and r: "repr h (Some a) (right (h a)) r" and cv: "color (h a) = c" "value (h a) = v" by simp_all
  show ?case using Node.IH(1)[OF l] Node.IH(2)[OF r] p cv
    by (subst cloneTree.simps) simp
qed


lemma snap_inorder_erase: "snap_inorder (erase t) = map snd (inorder t)"
  by (induction t) auto

lemma snapIsRed_erase: "snapIsRed (erase t) = (root_color t = RED)"
  by (cases t) auto

lemma noRedRed_erase: "rbsub t \<Longrightarrow> noRedRed (erase t)"
  by (induction t) (auto simp: snapIsRed_erase)

lemma blackCounts_erase: "rbsub t \<Longrightarrow> set (blackCounts (erase t)) = {bh t}"
  by (induction t) auto

lemma subtrees_erase: "rbsub t \<Longrightarrow> n \<in> set (subtrees (erase t)) \<Longrightarrow> \<exists>t'. n = erase t' \<and> rbsub t'"
proof (induction t)
  case Leaf
  then show ?case by (auto intro: exI[of _ Leaf])
next
  case (Node l a c v r)
  from Node.prems(2) consider "n = erase (Node l a c v r)" | "n \<in> set (subtrees (erase l))" | "n \<in> set (subtrees (erase r))"
    by auto
  then show ?case
  proof cases
    case 1 with Node.prems(1) show ?thesis by blast
  next
    case 2 with Node.IH(1) Node.prems(1) show ?thesis by simp
  next
    case 3 with Node.IH(2) Node.prems(1) show ?thesis by simp
  qed
qed

lemma blackCountsEqual_erase: "rbsub t \<Longrightarrow> blackCountsEqual (erase t)"
  unfolding blackCountsEqual_def
proof (intro ballI)
  fix n a b
  assume "rbsub t" "n \<in> set (subtrees (erase t))" "a \<in> set (blackCounts n)" "b \<in> set (blackCounts n)"
  from subtrees_erase[OF this(1,2)] obtain t' where "n = erase t'" "rbsub t'" by blast
  with blackCounts_erase[OF this(2)] \<open>a \<in> _\<close> \<open>b \<in> _\<close> show "a = b" by simp
qed

lemma rootIsBlack_erase: "rb_valid t \<Longrightarrow> t \<noteq> Leaf \<Longrightarrow> rootIsBlack (erase t)"
  by (cases t) (auto simp: rb_valid_def)

lemma filter_le_all: "\<forall>x\<in>set xs. x \<le> (v::int) \<Longrightarrow> filter (\<lambda>x. x \<le> v) xs = xs \<and> filter (\<lambda>x. v < x) xs = []"
  by (induction xs) auto

lemma filter_gt_all: "\<forall>x\<in>set xs. (v::int) < x \<Longrightarrow> filter (\<lambda>x. x \<le> v) xs = [] \<and> filter (\<lambda>x. v < x) xs = xs"
  by (induction xs) auto

lemma routed_bounds:
  "\<forall>f\<in>set cs. routed v f \<Longrightarrow> sorted (map snd (ctx_before cs @ ctx_after cs)) \<Longrightarrow>
   (\<forall>x\<in>set (ctx_before cs). snd x \<le> v) \<and> (\<forall>x\<in>set (ctx_after cs). v < snd x)"
proof (induction cs)
  case Nil then show ?case by simp
next
  case (Cons f cs)
  show ?case
  proof (cases f)
    case (LeftOf a c k r)
    with Cons.prems have s: "sorted (map snd (ctx_before cs) @ k # map snd (inorder r) @ map snd (ctx_after cs))"
      and lt: "v < k" by simp_all
    from s have "sorted (map snd (ctx_before cs @ ctx_after cs))" by (auto simp: sorted_append)
    with Cons have ih: "(\<forall>x\<in>set (ctx_before cs). snd x \<le> v)" "(\<forall>x\<in>set (ctx_after cs). v < snd x)" by auto
    from s have "\<forall>x\<in>set (inorder r). k \<le> snd x" by (auto simp: sorted_append)
    with lt ih LeftOf show ?thesis by auto
  next
    case (RightOf l a c k)
    with Cons.prems have s: "sorted (map snd (ctx_before cs) @ map snd (inorder l) @ k # map snd (ctx_after cs))"
      and ge: "k \<le> v" by simp_all
    from s have "sorted (map snd (ctx_before cs @ ctx_after cs))" by (auto simp: sorted_append)
    with Cons have ih: "(\<forall>x\<in>set (ctx_before cs). snd x \<le> v)" "(\<forall>x\<in>set (ctx_after cs). v < snd x)" by auto
    from s have "\<forall>x\<in>set (inorder l). snd x \<le> k" by (auto simp: sorted_append)
    with ge ih RightOf show ?thesis by auto
  qed
qed

subsection \<open>Sequences of insertions\<close>

lemma filter_fst_all:
  "\<forall>x\<in>set xs. P x \<Longrightarrow> \<forall>x\<in>set ys. \<not> P x \<Longrightarrow> filter P (xs @ ys) = xs"
  by (induction xs) auto

lemma filter_snd_all:
  "\<forall>x\<in>set xs. \<not> P x \<Longrightarrow> \<forall>x\<in>set ys. P x \<Longrightarrow> filter P (xs @ ys) = ys"
  by (induction xs) auto

lemma redBlackInsert_good:
  assumes G: "rb_good s root T"
  shows "\<exists>s' r T'. redBlackInsert s root v = Some (s', Some r) \<and> rb_good s' (Some r) T'
           \<and> fresh s' = Suc (fresh s)
           \<and> inorder T' = filter (\<lambda>x. snd x \<le> v) (inorder T) @ (fresh s, v)
                             # filter (\<lambda>x. v < snd x) (inorder T)"
proof -
  from G have S: "rb_state s root T" and V: "rb_valid T" and so: "sorted (map snd (inorder T))"
    by (simp_all add: rb_good_def)
  from redBlackInsert_correct[OF S V, of v] obtain s' r T' cs where
    ins: "redBlackInsert s root v = Some (s', Some r)" and S': "rb_state s' (Some r) T'"
    and V': "rb_valid T'" and fr: "fresh s' = Suc (fresh s)" and p: "plug cs Leaf = T"
    and ro: "\<forall>f\<in>set cs. routed v f"
    and io: "inorder T' = inorder (plug cs (Node Leaf (fresh s) RED v Leaf))" by blast
  let ?B = "ctx_before cs" and ?A = "ctx_after cs"
  have T: "inorder T = ?B @ ?A" using inorder_plug_split[of cs Leaf] p by simp
  have T': "inorder T' = ?B @ (fresh s, v) # ?A" using inorder_plug_split[of cs] io by simp
  from routed_bounds[OF ro] so T have b: "\<forall>x\<in>set ?B. snd x \<le> v" and a: "\<forall>x\<in>set ?A. v < snd x"
    by simp_all
  have f1: "filter (\<lambda>x. snd x \<le> v) (inorder T) = ?B"
    unfolding T using b a by (intro filter_fst_all) auto
  have f2: "filter (\<lambda>x. v < snd x) (inorder T) = ?A"
    unfolding T using b a by (intro filter_snd_all) auto
  have "sorted (map snd (inorder T'))"
    using so b a unfolding T T' by (auto simp: sorted_append)
  with S' V' have "rb_good s' (Some r) T'" by (simp add: rb_good_def)
  with ins fr T' f1 f2 show ?thesis by auto
qed

lemma rb_good_empty: "rb_good emptyStore None Leaf"
  by (simp add: rb_good_def rb_state_def rb_valid_def)

lemma redBlackInsertAll_good:
  "rb_good s root T \<Longrightarrow>
   \<exists>s' root' T'. redBlackInsertAll s root vs = Some (s', root') \<and> rb_good s' root' T'
      \<and> fresh s' = fresh s + length vs \<and> length (inorder T') = length (inorder T) + length vs"
proof (induction vs arbitrary: s root T)
  case Nil
  then show ?case by auto
next
  case (Cons v vs)
  from redBlackInsert_good[OF Cons.prems, of v] obtain s1 r T1 where
    i: "redBlackInsert s root v = Some (s1, Some r)" and g: "rb_good s1 (Some r) T1"
    and f: "fresh s1 = Suc (fresh s)"
    and io: "inorder T1 = filter (\<lambda>x. snd x \<le> v) (inorder T) @ (fresh s, v) # filter (\<lambda>x. v < snd x) (inorder T)"
    by blast
  have "length (inorder T1) = Suc (length (inorder T))"
    unfolding io using sum_length_filter_compl[of "\<lambda>x. snd x \<le> v" "inorder T"]
    by (simp add: not_le)
  with Cons.IH[OF g] i f show ?case by auto
qed

subsection \<open>Progress of the fix-up loop\<close>

text \<open>
  The depth of \<open>z\<close> is the length of its path; the path of a new node is at most twice
  as long as the number of BLACK nodes on it, and a tree with \<open>b\<close> BLACK nodes on its paths
  has at least \<open>2 ^ b - 1\<close> nodes.
\<close>

lemma nodeDepth_zrel: "zrel h root (Some z) cs t \<Longrightarrow> nodeDepth h z = Some (length cs)"
proof (induction cs arbitrary: z t)
  case Nil
  from zrel_parent[OF Nil] show ?case by (subst nodeDepth.simps) simp
next
  case (Cons f cs)
  from Cons.prems have "zrel h root (Some (frame_addr f)) cs (plug1 f t)" by (simp add: zrel_frame)
  from Cons.IH[OF this] zrel_parent[OF Cons.prems] show ?case
    by (subst nodeDepth.simps) simp
qed

lemma body_progress:
  assumes I: "fix_inv h root z cs t" and c: "fixInsert_cond h z"
  shows "\<exists>h' root' z' cs' t'. fixInsert_body h root z = Some (h', root', z')
           \<and> fix_inv h' root' z' cs' t'
           \<and> (\<not> fixInsert_cond h' z'
                \<or> Option.bind (parent (h z)) (\<lambda>p. parent (h p)) = Some z'
                  \<and> (\<exists>d. nodeDepth h' z' = Some d \<and> nodeDepth h z = Some (d + 2)))"
proof -
  from I have Z: "zrel h root (Some z) cs t" and red: "root_color t = RED" and sub: "rbsub t"
    and ctx: "ctx_ok cs (bh t)" by (simp_all add: fix_inv_def)
  from body_step[OF Z red sub ctx c] obtain h' root' z' cs' t' where
    b: "fixInsert_body h root z = Some (h', root', z')"
    and Z': "zrel h' root' (Some z') cs' t'" and r': "root_color t' = RED" "rbsub t'" "ctx_ok cs' (bh t')"
    and prog: "\<not> fixInsert_cond h' z' \<or> length cs' + 2 = length cs
                  \<and> Option.bind (parent (h z)) (\<lambda>p. parent (h p)) = Some z'" by blast
  have I': "fix_inv h' root' z' cs' t'" using Z' r' by (simp add: fix_inv_def)
  have "nodeDepth h' z' = Some (length cs')" "nodeDepth h z = Some (length cs)"
    using nodeDepth_zrel[OF Z'] nodeDepth_zrel[OF Z] by simp_all
  with prog have "\<not> fixInsert_cond h' z'
                \<or> Option.bind (parent (h z)) (\<lambda>p. parent (h p)) = Some z'
                  \<and> (\<exists>d. nodeDepth h' z' = Some d \<and> nodeDepth h z = Some (d + 2))"
    by auto
  with b I' show ?thesis by blast
qed

lemma iter_inv:
  "fix_inv h root z cs t \<Longrightarrow> fixInsert_iter k h root z = Some (h', root', z') \<Longrightarrow>
   \<exists>cs' t'. fix_inv h' root' z' cs' t'"
proof (induction k arbitrary: h root z cs t)
  case 0
  then show ?case by auto
next
  case (Suc k)
  show ?case
  proof (cases "fixInsert_cond h z")
    case False
    with Suc.prems show ?thesis by auto
  next
    case True
    from body_progress[OF Suc.prems(1) True] obtain h1 root1 z1 cs1 t1 where
      b: "fixInsert_body h root z = Some (h1, root1, z1)" and I1: "fix_inv h1 root1 z1 cs1 t1" by blast
    with Suc.prems(2) True have "fixInsert_iter k h1 root1 z1 = Some (h', root', z')" by simp
    from Suc.IH[OF I1 this] show ?thesis .
  qed
qed

lemma ctx_ok_length:
  "ctx_ok cs k \<Longrightarrow>
   length cs + (case cs of [] \<Rightarrow> 0 | f # _ \<Rightarrow> if frame_color f = BLACK then 1 else 0) \<le> 2 * blacks cs"
proof (induction cs arbitrary: k)
  case Nil then show ?case by simp
next
  case (Cons f cs)
  from Cons.prems have "ctx_ok cs (k + (if frame_color f = BLACK then 1 else 0))" by simp
  from Cons.IH[OF this] Cons.prems show ?case
    by (cases "frame_color f") (auto split: list.splits if_splits)
qed

lemma rbsub_plug_sub: "rbsub (plug cs t) \<Longrightarrow> rbsub t"
proof (induction cs arbitrary: t)
  case Nil then show ?case by simp
next
  case (Cons f cs)
  from Cons.IH[of "plug1 f t"] Cons.prems have "rbsub (plug1 f t)" by simp
  then show ?case by (cases f) auto
qed

lemma bh_plug: "rbsub (plug cs t) \<Longrightarrow> bh (plug cs t) = bh t + blacks cs"
proof (induction cs arbitrary: t)
  case Nil then show ?case by simp
next
  case (Cons f cs)
  from Cons.prems have "rbsub (plug cs (plug1 f t))" by simp
  from Cons.IH[OF this] have 1: "bh (plug (f # cs) t) = bh (plug1 f t) + blacks cs" by simp
  have "rbsub (plug1 f t)" using rbsub_plug_sub[of cs "plug1 f t"] Cons.prems by simp
  then have "bh (plug1 f t) = bh t + (if frame_color f = BLACK then 1 else 0)" by (cases f) auto
  with 1 show ?case by simp
qed

lemma size_bh: "rbsub t \<Longrightarrow> 2 ^ bh t \<le> length (inorder t) + 1"
proof (induction t)
  case Leaf then show ?case by simp
next
  case (Node l a c v r)
  then have "2 ^ bh l \<le> length (inorder l) + 1" "2 ^ bh r \<le> length (inorder r) + 1" "bh l = bh r"
    by auto
  then show ?case by (cases c) auto
qed

lemma fix_terminates_log:
  assumes G: "rb_good s root T"
  shows "\<exists>h1 root1 cs. redBlackInsert_attach s root v = Some (h1, root1, fresh s)
           \<and> fix_inv h1 root1 (fresh s) cs (Node Leaf (fresh s) RED v Leaf)
           \<and> (\<exists>n h' root' z'. 2 ^ n \<le> length (inorder T) + 1
                 \<and> fixInsert_iter n h1 root1 (fresh s) = Some (h', root', z')
                 \<and> \<not> fixInsert_cond h' z'
                 \<and> fixInsert_loop h1 root1 (fresh s) = Some (h', root', z'))"
proof -
  let ?t0 = "Node Leaf (fresh s) RED v Leaf"
  from G have S: "rb_state s root T" and V: "rb_valid T" by (simp_all add: rb_good_def)
  from attach_zrel[OF S, of v] obtain h1 root1 cs where
    a: "redBlackInsert_attach s root v = Some (h1, root1, fresh s)"
    and Z: "zrel h1 root1 (Some (fresh s)) cs ?t0"
    and p: "plug cs Leaf = T" by blast
  from V p have sub: "rbsub (plug cs Leaf)" and ctx0: "ctx_ok cs (bh Leaf)"
    using ctx_of_plug[of cs Leaf] by (simp_all add: rb_valid_def)
  then have ctx: "ctx_ok cs (bh ?t0)" by simp
  have I: "fix_inv h1 root1 (fresh s) cs ?t0" using Z ctx by (simp add: fix_inv_def)
  from fix_iter[OF Z _ _ ctx] obtain n h' root' z' where
    n: "n \<le> length cs div 2" and it: "fixInsert_iter n h1 root1 (fresh s) = Some (h', root', z')"
    and nc: "\<not> fixInsert_cond h' z'" by auto
  have "length cs \<le> 2 * blacks cs" using ctx_ok_length[OF ctx0] by simp
  with n have "n \<le> blacks cs" by simp
  also have "blacks cs = bh T" using bh_plug[OF sub] p by simp
  finally have "(2::nat) ^ n \<le> 2 ^ bh T" by simp
  also have "\<dots> \<le> length (inorder T) + 1" using size_bh V by (simp add: rb_valid_def)
  finally have "2 ^ n \<le> length (inorder T) + 1" .
  with a I it nc iter_loop[OF it nc] show ?thesis by blast
qed

section \<open>The AVL engine\<close>

subsection \<open>In-order sequence and stored heights\<close>

text \<open>
  Rotations and the height update keep the in-order sequence, so an insertion that returns
  has put the key in order; and it has recomputed every stored height it invalidated.
  Neither fact needs the tree to be balanced.
\<close>

lemma rr_inorder: "avl_rightRotate t = Some t' \<Longrightarrow> avl_inorder t' = avl_inorder t"
  by (induction t rule: avl_rightRotate.induct) auto

lemma lr_inorder: "avl_leftRotate t = Some t' \<Longrightarrow> avl_inorder t' = avl_inorder t"
  by (induction t rule: avl_leftRotate.induct) auto

lemma rebalance_inorder:
  "avlInsert_rebalance t v = Some t' \<Longrightarrow> avl_inorder t' = avl_inorder t"
  by (cases t) (auto simp: Let_def split: if_splits bind_splits dest!: rr_inorder lr_inorder)

lemma avlInsert_inorder:
  "avlInsert t v = Some t' \<Longrightarrow> sorted (avl_inorder t) \<Longrightarrow> avl_inorder t' = placeKey v (avl_inorder t)"
proof (induction t arbitrary: t')
  case Null
  then show ?case by (auto simp: placeKey_def)
next
  case (AVLNode l rv h r)
  show ?case
  proof (cases "v < rv")
    case True
    with AVLNode.prems obtain l' where l': "avlInsert l v = Some l'"
      and reb: "avlInsert_rebalance (AVLNode l' rv h r) v = Some t'"
      by (auto split: bind_splits)
    from AVLNode.prems have sl: "sorted (avl_inorder l)" and gr: "\<forall>x\<in>set (avl_inorder r). v < x"
      using True by (auto simp: sorted_append)
    have "avl_inorder l' = placeKey v (avl_inorder l)" using AVLNode.IH(1)[OF l' sl] .
    moreover have "avl_inorder t' = avl_inorder l' @ rv # avl_inorder r"
      using rebalance_inorder[OF reb] by simp
    ultimately show ?thesis using True filter_gt_all[OF gr] by (simp add: placeKey_def)
  next
    case False
    with AVLNode.prems obtain r' where r': "avlInsert r v = Some r'"
      and reb: "avlInsert_rebalance (AVLNode l rv h r') v = Some t'"
      by (auto split: bind_splits)
    from AVLNode.prems have sr: "sorted (avl_inorder r)" and le: "\<forall>x\<in>set (avl_inorder l). x \<le> v"
      using False by (auto simp: sorted_append)
    have "avl_inorder r' = placeKey v (avl_inorder r)" using AVLNode.IH(2)[OF r' sr] .
    moreover have "avl_inorder t' = avl_inorder l @ rv # avl_inorder r'"
      using rebalance_inorder[OF reb] by simp
    ultimately show ?thesis using False filter_le_all[OF le] by (simp add: placeKey_def)
  qed
qed

lemma sorted_placeKey: "sorted xs \<Longrightarrow> sorted (placeKey v xs)"
  by (induction xs) (auto simp: placeKey_def sorted_append)

lemma getHeight_real: "heightsCorrect t \<Longrightarrow> getHeight t = realHeight t"
  by (cases t) auto

lemma rr_heights2: "avl_rightRotate (AVLNode l v h r) = Some t' \<Longrightarrow> heightsCorrect l \<Longrightarrow> heightsCorrect r \<Longrightarrow> heightsCorrect t'"
  by (cases l) (auto simp: Let_def getHeight_real)

lemma lr_heights2: "avl_leftRotate (AVLNode l v h r) = Some t' \<Longrightarrow> heightsCorrect l \<Longrightarrow> heightsCorrect r \<Longrightarrow> heightsCorrect t'"
  by (cases r) (auto simp: Let_def getHeight_real)

lemma rr_heights: "avl_rightRotate t = Some t' \<Longrightarrow> heightsCorrect t \<Longrightarrow> heightsCorrect t'"
  by (cases t) (auto dest: rr_heights2)

lemma lr_heights: "avl_leftRotate t = Some t' \<Longrightarrow> heightsCorrect t \<Longrightarrow> heightsCorrect t'"
  by (cases t) (auto dest: lr_heights2)

lemma rebalance_heights:
  assumes "avlInsert_rebalance (AVLNode l v h r) k = Some t'" "heightsCorrect l" "heightsCorrect r"
  shows "heightsCorrect t'"
  using assms
  by (auto simp: Let_def getHeight_real split: if_splits bind_splits dest: rr_heights2 lr_heights2 rr_heights lr_heights)

lemma avlInsert_heights: "avlInsert t v = Some t' \<Longrightarrow> heightsCorrect t \<Longrightarrow> heightsCorrect t'"
proof (induction t arbitrary: t')
  case Null then show ?case by auto
next
  case (AVLNode l rv h r)
  then show ?case
    by (auto simp del: avlInsert_rebalance.simps split: if_splits bind_splits dest: rebalance_heights)
qed

section \<open>Traces and playback\<close>

text \<open>
  Entry \<open>i\<close> of a trace is the tree after the first \<open>i + 1\<close> insertions: for the Red-Black
  engine the clone of the heap at that moment, and the trace exists for every key list.
\<close>

lemma rb_state_nonempty: "rb_state s (Some r) T \<Longrightarrow> T \<noteq> Leaf"
  by (auto simp: rb_state_def)

lemma build_loop_good:
  "rb_good s root T \<Longrightarrow>
   \<exists>ts. buildRedBlackTreeSteps_loop s root acc vals = Some (acc @ ts) \<and> length ts = length vals
      \<and> (\<forall>i<length vals. \<exists>s' root' T'.
             redBlackInsertAll s root (take (Suc i) vals) = Some (s', root')
             \<and> rb_good s' root' T' \<and> T' \<noteq> Leaf
             \<and> cloneTree (heap s') root' = Some (ts ! i) \<and> ts ! i = erase T')"
proof (induction vals arbitrary: s root T acc)
  case Nil
  then show ?case by simp
next
  case (Cons v vs)
  from redBlackInsert_good[OF Cons.prems, of v] obtain s1 r T1 where
    i: "redBlackInsert s root v = Some (s1, Some r)" and g: "rb_good s1 (Some r) T1" by blast
  from g have ne: "T1 \<noteq> Leaf" using rb_state_nonempty by (auto simp: rb_good_def)
  from g have c: "cloneTree (heap s1) (Some r) = Some (erase T1)"
    using cloneTree_repr by (auto simp: rb_good_def rb_state_def)
  from Cons.IH[OF g, of "acc @ [erase T1]"] obtain ts where
    l: "buildRedBlackTreeSteps_loop s1 (Some r) (acc @ [erase T1]) vs = Some (acc @ erase T1 # ts)"
    and len: "length ts = length vs"
    and nth: "\<forall>i<length vs. \<exists>s' root' T'.
             redBlackInsertAll s1 (Some r) (take (Suc i) vs) = Some (s', root')
             \<and> rb_good s' root' T' \<and> T' \<noteq> Leaf
             \<and> cloneTree (heap s') root' = Some (ts ! i) \<and> ts ! i = erase T'" by auto
  have 1: "buildRedBlackTreeSteps_loop s root acc (v # vs) = Some (acc @ erase T1 # ts)"
    using i c l by simp
  have 2: "\<exists>s' root' T'.
             redBlackInsertAll s root (take (Suc j) (v # vs)) = Some (s', root')
             \<and> rb_good s' root' T' \<and> T' \<noteq> Leaf
             \<and> cloneTree (heap s') root' = Some ((erase T1 # ts) ! j) \<and> (erase T1 # ts) ! j = erase T'"
    if "j < length (v # vs)" for j
  proof (cases j)
    case 0
    with i g ne c show ?thesis by auto
  next
    case (Suc k)
    with that have "k < length vs" by simp
    with nth obtain s' root' T' where
      "redBlackInsertAll s1 (Some r) (take (Suc k) vs) = Some (s', root')"
      "rb_good s' root' T'" "T' \<noteq> Leaf" "cloneTree (heap s') root' = Some (ts ! k)" "ts ! k = erase T'"
      by blast
    with i Suc show ?thesis by auto
  qed
  from 1 2 len show ?case by (intro exI[of _ "erase T1 # ts"]) auto
qed

lemma avl_loop_char:
  "buildAVLTreeSteps_loop root acc vals = Some out \<Longrightarrow>
   \<exists>ts. out = acc @ ts \<and> length ts = length vals
     \<and> (\<forall>i<length vals. avlInsertAll root (take (Suc i) vals) = Some (tree (ts ! i))
            \<and> current (ts ! i) = vals ! i)"
proof (induction vals arbitrary: root acc)
  case Nil
  then show ?case by simp
next
  case (Cons v vs)
  from Cons.prems obtain r1 where i: "avlInsert root v = Some r1"
    and l: "buildAVLTreeSteps_loop r1 (acc @ [\<lparr>tree = r1, current = v\<rparr>]) vs = Some out"
    by (auto split: bind_splits)
  from Cons.IH[OF l] obtain ts where o: "out = acc @ \<lparr>tree = r1, current = v\<rparr> # ts"
    and len: "length ts = length vs"
    and nth: "\<forall>i<length vs. avlInsertAll r1 (take (Suc i) vs) = Some (tree (ts ! i))
            \<and> current (ts ! i) = vs ! i" by auto
  let ?ts = "\<lparr>tree = r1, current = v\<rparr> # ts"
  have "avlInsertAll root (take (Suc j) (v # vs)) = Some (tree (?ts ! j)) \<and> current (?ts ! j) = (v # vs) ! j"
    if "j < length (v # vs)" for j
    using that i nth by (cases j) auto
  with o len show ?case by (intro exI[of _ ?ts]) auto
qed

lemma avl_loop_exists:
  "avlInsertAll root vals = Some t \<Longrightarrow> \<exists>out. buildAVLTreeSteps_loop root acc vals = Some out"
  by (induction vals arbitrary: root acc) (auto split: bind_splits)


lemma avlInsertAll_heights: "avlInsertAll t vs = Some t' \<Longrightarrow> heightsCorrect t \<Longrightarrow> heightsCorrect t'"
  by (induction vs arbitrary: t) (auto split: bind_splits dest: avlInsert_heights)

lemma avlInsert_sorted: "avlInsert t v = Some t' \<Longrightarrow> sorted (avl_inorder t) \<Longrightarrow> sorted (avl_inorder t')"
  using avlInsert_inorder[of t v t'] sorted_placeKey[of "avl_inorder t" v] by simp

lemma avlInsertAll_sorted: "avlInsertAll t vs = Some t' \<Longrightarrow> sorted (avl_inorder t) \<Longrightarrow> sorted (avl_inorder t')"
  by (induction vs arbitrary: t) (auto split: bind_splits dest: avlInsert_sorted)

lemma rb_build_good:
  "\<exists>ts. buildRedBlackTreeSteps vals = Some ts \<and> length ts = length vals
      \<and> (\<forall>i<length vals. \<exists>s' root' T'.
             redBlackInsertAll emptyStore None (take (Suc i) vals) = Some (s', root')
             \<and> rb_good s' root' T' \<and> T' \<noteq> Leaf
             \<and> cloneTree (heap s') root' = Some (ts ! i) \<and> ts ! i = erase T')"
  using build_loop_good[OF rb_good_empty, of "[]" vals] by (simp add: buildRedBlackTreeSteps_def)

lemma tick_at_last:
  "currentStepIndex v = int (length (steps v)) - 1 \<Longrightarrow>
   steps (tick v) = steps v \<and> currentStepIndex (tick v) = currentStepIndex v"
  by (simp add: tick_def)

lemma ticks_at_last:
  "currentStepIndex v = int (length (steps v)) - 1 \<Longrightarrow>
   steps ((tick ^^ n) v) = steps v \<and> currentStepIndex ((tick ^^ n) v) = currentStepIndex v"
  by (induction n) (auto simp: tick_at_last)




section \<open>The AVL engine on pairwise distinct keys\<close>

text \<open>
  When no key repeats, the strict comparisons of the rebalancing tests tell on which side
  of the child the key went, the rotations are applied to the shapes they expect, and
  every insertion returns a balanced tree with correct heights.
\<close>

lemma realHeight_nonneg: "0 \<le> realHeight t"
  by (induction t) auto

lemma rebalance_keep:
  assumes "avlok l" "avlok r" "\<bar>realHeight l - realHeight r\<bar> \<le> 1"
  shows "avlInsert_rebalance (AVLNode l rv h r) v
           = Some (AVLNode l rv (1 + max (realHeight l) (realHeight r)) r)"
  using assms by (auto simp: avlok_def getHeight_real Let_def)

lemma rebalance_left_heavy:
  assumes l: "avlok l" and r: "avlok r" and h: "realHeight l = realHeight r + 2"
    and ts: "tallSide l v"
  shows "\<exists>t'. avlInsert_rebalance (AVLNode l rv h0 r) v = Some t' \<and> avlok t'
           \<and> realHeight t' = realHeight r + 2"
proof -
  from ts obtain a x hx b where L: "l = AVLNode a x hx b" by (cases l) auto
  from l L have a: "avlok a" and b: "avlok b" and hxeq: "hx = 1 + max (realHeight a) (realHeight b)"
    and bal: "\<bar>realHeight a - realHeight b\<bar> \<le> 1"
    by (auto simp: avlok_def)
  show ?thesis
  proof (cases "v < x")
    case True
    with ts L have "realHeight a = realHeight b + 1" by simp
    with h L have "realHeight b = realHeight r" by (simp add: max_def)
    with True a b r L h hxeq \<open>realHeight a = realHeight b + 1\<close> show ?thesis
      by (auto simp: avlok_def getHeight_real Let_def)
  next
    case False
    with ts L have gt: "x < v" and hb: "realHeight b = realHeight a + 1" by auto
    with realHeight_nonneg[of a] obtain b1 y hy b2 where B: "b = AVLNode b1 y hy b2"
      by (cases b) auto
    from b B have b1: "avlok b1" and b2: "avlok b2" and balb: "\<bar>realHeight b1 - realHeight b2\<bar> \<le> 1"
      and hyeq: "hy = 1 + max (realHeight b1) (realHeight b2)"
      by (auto simp: avlok_def)
    from h L hb have hbr: "realHeight b = realHeight r + 1" by (simp add: max_def)
    with hb have har: "realHeight a = realHeight r" by simp
    from hbr B have mx: "max (realHeight b1) (realHeight b2) = realHeight r" by simp
    let ?X = "AVLNode a x (1 + max (realHeight a) (realHeight b1)) b1"
    let ?Y = "AVLNode b2 rv (1 + max (realHeight b2) (realHeight r)) r"
    let ?T = "AVLNode ?X y (1 + max (realHeight ?X) (realHeight ?Y)) ?Y"
    have gl: "getHeight l = realHeight r + 2" using l h by (simp add: avlok_def getHeight_real)
    have gr: "getHeight r = realHeight r" using r by (simp add: avlok_def getHeight_real)
    have ga: "getHeight a = realHeight a" "getHeight b1 = realHeight b1" "getHeight b2 = realHeight b2"
      using a b1 b2 by (simp_all add: avlok_def getHeight_real)
    have "avl_leftRotate l
            = Some (AVLNode ?X y (1 + max (realHeight ?X) (realHeight b2)) b2)"
      using L B ga by (simp add: Let_def)
    then have res: "avlInsert_rebalance (AVLNode l rv h0 r) v = Some ?T"
      using gl gr gt L ga by (simp add: Let_def)
    have "avlok ?T" using a b1 b2 r har mx balb by (auto simp: avlok_def)
    moreover have "realHeight ?T = realHeight r + 2" using har mx by (simp add: max_def split: if_splits)
    ultimately show ?thesis using res by blast
  qed
qed

lemma rebalance_right_heavy:
  assumes l: "avlok l" and r: "avlok r" and h: "realHeight r = realHeight l + 2"
    and ts: "tallSide r v"
  shows "\<exists>t'. avlInsert_rebalance (AVLNode l rv h0 r) v = Some t' \<and> avlok t'
           \<and> realHeight t' = realHeight l + 2"
proof -
  from ts obtain a x hx b where R: "r = AVLNode a x hx b" by (cases r) auto
  from r R have a: "avlok a" and b: "avlok b" and hxeq: "hx = 1 + max (realHeight a) (realHeight b)"
    and bal: "\<bar>realHeight a - realHeight b\<bar> \<le> 1"
    by (auto simp: avlok_def)
  have gl: "getHeight l = realHeight l" using l by (simp add: avlok_def getHeight_real)
  have gr: "getHeight r = realHeight l + 2" using r h by (simp add: avlok_def getHeight_real)
  have ga: "getHeight a = realHeight a" "getHeight b = realHeight b"
    using a b by (simp_all add: avlok_def getHeight_real)
  show ?thesis
  proof (cases "x < v")
    case True
    with ts R have hb: "realHeight b = realHeight a + 1" by simp
    with h R have har: "realHeight a = realHeight l" by (simp add: max_def)
    let ?X = "AVLNode l rv (1 + max (realHeight l) (realHeight a)) a"
    let ?T = "AVLNode ?X x (1 + max (realHeight ?X) (realHeight b)) b"
    have res: "avlInsert_rebalance (AVLNode l rv h0 r) v = Some ?T"
      using gl gr True R ga by (simp add: Let_def)
    have "avlok ?T" using a b l har hb by (auto simp: avlok_def)
    moreover have "realHeight ?T = realHeight l + 2" using har hb by (simp add: max_def)
    ultimately show ?thesis using res by blast
  next
    case False
    with ts R have lt: "v < x" and ha: "realHeight a = realHeight b + 1" by auto
    with realHeight_nonneg[of b] obtain a1 y hy a2 where A: "a = AVLNode a1 y hy a2"
      by (cases a) auto
    from a A have a1: "avlok a1" and a2: "avlok a2" and bala: "\<bar>realHeight a1 - realHeight a2\<bar> \<le> 1"
      by (auto simp: avlok_def)
    from h R ha have har: "realHeight a = realHeight l + 1" by (simp add: max_def)
    with ha have hbl: "realHeight b = realHeight l" by simp
    from har A have mx: "max (realHeight a1) (realHeight a2) = realHeight l" by simp
    let ?X = "AVLNode l rv (1 + max (realHeight l) (realHeight a1)) a1"
    let ?Y = "AVLNode a2 x (1 + max (realHeight a2) (realHeight b)) b"
    let ?T = "AVLNode ?X y (1 + max (realHeight ?X) (realHeight ?Y)) ?Y"
    have g1: "getHeight a1 = realHeight a1" "getHeight a2 = realHeight a2"
      using a1 a2 by (simp_all add: avlok_def getHeight_real)
    have "avl_rightRotate r
            = Some (AVLNode a1 y (1 + max (realHeight a1) (realHeight ?Y)) ?Y)"
      using R A ga g1 by (simp add: Let_def)
    then have res: "avlInsert_rebalance (AVLNode l rv h0 r) v = Some ?T"
      using gl gr lt R g1 by (simp add: Let_def)
    have "avlok ?T" using a1 a2 b l hbl mx bala by (auto simp: avlok_def)
    moreover have "realHeight ?T = realHeight l + 2" using hbl mx by (simp add: max_def split: if_splits)
    ultimately show ?thesis using res by blast
  qed
qed

lemma avlInsert_ok:
  "avlok t \<Longrightarrow> v \<notin> set (avl_inorder t) \<Longrightarrow>
   \<exists>t'. avlInsert t v = Some t' \<and> avlok t'
      \<and> (realHeight t' = realHeight t
           \<or> realHeight t' = realHeight t + 1 \<and> (t \<noteq> Null \<longrightarrow> tallSide t' v))"
proof (induction t)
  case Null
  then show ?case by (simp add: avlok_def)
next
  case (AVLNode l rv h r)
  from AVLNode.prems have l: "avlok l" and r: "avlok r" and ne: "v \<noteq> rv"
    and bal: "\<bar>realHeight l - realHeight r\<bar> \<le> 1"
    and vl: "v \<notin> set (avl_inorder l)" and vr: "v \<notin> set (avl_inorder r)"
    by (auto simp: avlok_def)
  show ?case
  proof (cases "v < rv")
    case True
    from AVLNode.IH(1)[OF l vl] obtain l' where i: "avlInsert l v = Some l'" and l': "avlok l'"
      and hl: "realHeight l' = realHeight l
               \<or> realHeight l' = realHeight l + 1 \<and> (l \<noteq> Null \<longrightarrow> tallSide l' v)" by blast
    have ins: "avlInsert (AVLNode l rv h r) v = avlInsert_rebalance (AVLNode l' rv h r) v"
      using True i by simp
    show ?thesis
    proof (cases "\<bar>realHeight l' - realHeight r\<bar> \<le> 1")
      case keep: True
      let ?T = "AVLNode l' rv (1 + max (realHeight l') (realHeight r)) r"
      have 1: "avlInsert (AVLNode l rv h r) v = Some ?T"
        using ins rebalance_keep[OF l' r keep] by simp
      have 2: "avlok ?T" using l' r keep by (simp add: avlok_def)
      have 3: "realHeight ?T = realHeight (AVLNode l rv h r)
           \<or> realHeight ?T = realHeight (AVLNode l rv h r) + 1 \<and> tallSide ?T v"
        using hl bal keep ne True by (auto simp: max_def split: if_splits)
      from 1 2 3 show ?thesis by auto
    next
      case False
      with hl bal have h2: "realHeight l' = realHeight r + 2" and g: "realHeight l' = realHeight l + 1"
        by auto
      with realHeight_nonneg[of r] have "l \<noteq> Null" by auto
      with hl g have ts: "tallSide l' v" by auto
      from rebalance_left_heavy[OF l' r h2 ts, of rv h] obtain t' where
        "avlInsert_rebalance (AVLNode l' rv h r) v = Some t'" "avlok t'"
        "realHeight t' = realHeight r + 2" by blast
      with ins g h2 show ?thesis by (auto simp: max_def)
    qed
  next
    case False
    with ne have gt: "rv < v" by simp
    from AVLNode.IH(2)[OF r vr] obtain r' where i: "avlInsert r v = Some r'" and r': "avlok r'"
      and hr: "realHeight r' = realHeight r
               \<or> realHeight r' = realHeight r + 1 \<and> (r \<noteq> Null \<longrightarrow> tallSide r' v)" by blast
    have ins: "avlInsert (AVLNode l rv h r) v = avlInsert_rebalance (AVLNode l rv h r') v"
      using False i by simp
    show ?thesis
    proof (cases "\<bar>realHeight l - realHeight r'\<bar> \<le> 1")
      case keep: True
      let ?T = "AVLNode l rv (1 + max (realHeight l) (realHeight r')) r'"
      have 1: "avlInsert (AVLNode l rv h r) v = Some ?T"
        using ins rebalance_keep[OF l r' keep] by simp
      have 2: "avlok ?T" using l r' keep by (simp add: avlok_def)
      have 3: "realHeight ?T = realHeight (AVLNode l rv h r)
           \<or> realHeight ?T = realHeight (AVLNode l rv h r) + 1 \<and> tallSide ?T v"
        using hr bal keep ne gt by (auto simp: max_def split: if_splits)
      from 1 2 3 show ?thesis by auto
    next
      case nk: False
      with hr bal have h2: "realHeight r' = realHeight l + 2" and g: "realHeight r' = realHeight r + 1"
        by auto
      with realHeight_nonneg[of l] have "r \<noteq> Null" by auto
      with hr g have ts: "tallSide r' v" by auto
      from rebalance_right_heavy[OF l r' h2 ts, of rv h] obtain t' where
        "avlInsert_rebalance (AVLNode l rv h r') v = Some t'" "avlok t'"
        "realHeight t' = realHeight l + 2" by blast
      with ins g h2 show ?thesis by (auto simp: max_def)
    qed
  qed
qed

lemma avlInsert_set:
  "avlInsert t v = Some t' \<Longrightarrow> set (avl_inorder t') = insert v (set (avl_inorder t))"
proof (induction t arbitrary: t')
  case Null then show ?case by auto
next
  case (AVLNode l rv h r)
  then show ?case
    by (auto simp del: avlInsert_rebalance.simps split: if_splits bind_splits dest!: rebalance_inorder)
qed

lemma avlInsertAll_ok:
  "avlok t \<Longrightarrow> distinct vals \<Longrightarrow> set vals \<inter> set (avl_inorder t) = {} \<Longrightarrow>
   \<exists>t'. avlInsertAll t vals = Some t' \<and> avlok t'"
proof (induction vals arbitrary: t)
  case Nil then show ?case by simp
next
  case (Cons v vs)
  from Cons.prems have "v \<notin> set (avl_inorder t)" by auto
  from avlInsert_ok[OF Cons.prems(1) this] obtain t1 where i: "avlInsert t v = Some t1" and ok: "avlok t1"
    by blast
  from avlInsert_set[OF i] Cons.prems have "set vs \<inter> set (avl_inorder t1) = {}" by auto
  from Cons.IH[OF ok _ this] Cons.prems i show ?case by auto
qed

lemma avl_trace_for_distinct_keys:
  assumes d: "distinct vals"
  shows "\<exists>out. buildAVLTreeSteps vals = Some out \<and> length out = length vals
           \<and> (\<forall>s\<in>set out. avlBalanced (tree s) \<and> heightsCorrect (tree s))"
proof -
  have ok0: "avlok Null" by (simp add: avlok_def)
  from avlInsertAll_ok[OF ok0 d] obtain t where "avlInsertAll Null vals = Some t" by auto
  from avl_loop_exists[OF this, of "[]"] obtain out where
    b: "buildAVLTreeSteps_loop Null [] vals = Some out" by blast
  from avl_loop_char[OF b] have len: "length out = length vals"
    and nth: "\<forall>i<length vals. avlInsertAll Null (take (Suc i) vals) = Some (tree (out ! i))" by auto
  have "avlBalanced (tree s) \<and> heightsCorrect (tree s)" if "s \<in> set out" for s
  proof -
    from that len obtain i where i: "i < length vals" "s = out ! i" by (auto simp: in_set_conv_nth)
    with nth have 1: "avlInsertAll Null (take (Suc i) vals) = Some (tree s)" by simp
    from d have "distinct (take (Suc i) vals)" by simp
    from avlInsertAll_ok[OF ok0 this] 1 show ?thesis by (auto simp: avlok_def)
  qed
  with b len show ?thesis by (auto simp: buildAVLTreeSteps_def)
qed

lemma avl_trace_length:
  "buildAVLTreeSteps vals = Some out \<Longrightarrow> length out = length vals"
  using avl_loop_char[of Null "[]" vals out] by (auto simp: buildAVLTreeSteps_def)

lemma fixInsert_iter_returns:
  "fix_inv h root z cs t \<Longrightarrow> \<exists>r. fixInsert_iter k h root z = Some r"
proof (induction k arbitrary: h root z cs t)
  case 0
  then show ?case by simp
next
  case (Suc k)
  show ?case
  proof (cases "fixInsert_cond h z")
    case False
    then show ?thesis by simp
  next
    case True
    from body_progress[OF Suc.prems True] obtain h1 root1 z1 cs1 t1 where
      b: "fixInsert_body h root z = Some (h1, root1, z1)" and I1: "fix_inv h1 root1 z1 cs1 t1" by blast
    from Suc.IH[OF I1] b True show ?thesis by simp
  qed
qed

lemma redBlack_never_reads_null:
  "\<exists>s root h1 root1.
      redBlackInsertAll emptyStore None vals = Some (s, root)
      \<and> redBlackInsert_attach s root v = Some (h1, root1, fresh s)
      \<and> (\<forall>k. fixInsert_iter k h1 root1 (fresh s) \<noteq> None)
      \<and> redBlackInsert s root v \<noteq> None"
proof -
  from redBlackInsertAll_good[OF rb_good_empty, of vals] obtain s root T where
    all: "redBlackInsertAll emptyStore None vals = Some (s, root)" and G: "rb_good s root T" by blast
  from fix_terminates_log[OF G, of v] obtain h1 root1 cs where
    a: "redBlackInsert_attach s root v = Some (h1, root1, fresh s)"
    and I: "fix_inv h1 root1 (fresh s) cs (Node Leaf (fresh s) RED v Leaf)" by blast
  from fixInsert_iter_returns[OF I] have "\<forall>k. fixInsert_iter k h1 root1 (fresh s) \<noteq> None" by auto
  moreover from redBlackInsert_good[OF G, of v] have "redBlackInsert s root v \<noteq> None" by auto
  ultimately show ?thesis using all a by blast
qed

section \<open>The claims\<close>

text \<open>
  Claim C1 (AVL balance after every insertion, for every key sequence). The engine sends
  a key equal to a node's value to the right, but its four rebalancing tests compare the
  key with the child's value by strict \<open><\<close> and \<open>>\<close>, so none of them fires when the
  key equals that value. Inserting 3, 2, 2 leaves the root 3 with a left subtree of
  height 2 and an empty right subtree: the heights differ by 2.
\<close>

theorem avl_unbalanced_after_3_2_2:
  "avlInsertAll Null [3, 2, 2]
     = Some (AVLNode (AVLNode Null 2 2 (AVLNode Null 2 1 Null)) 3 3 Null)
   \<and> \<not> avlBalanced (AVLNode (AVLNode Null 2 2 (AVLNode Null 2 1 Null)) 3 3 Null)"
  by simp

text \<open>
  Claim C2. For every key sequence the Red-Black trace is built, it has one snapshot per
  key, and every snapshot (the tree after that insertion) has a BLACK root, no RED node
  with a RED child, and from every node the same number of BLACK nodes on all paths down
  to a \<open>null\<close> leaf.
\<close>

theorem redBlack_invariants_after_every_insertion:
  "\<exists>out. buildRedBlackTreeSteps vals = Some out \<and> length out = length vals
      \<and> (\<forall>s\<in>set out. rootIsBlack s \<and> noRedRed s \<and> blackCountsEqual s)"
proof -
  from rb_build_good[of vals] obtain ts where b: "buildRedBlackTreeSteps vals = Some ts"
    and len: "length ts = length vals"
    and nth: "\<forall>i<length vals. \<exists>s' root' T'. rb_good s' root' T' \<and> T' \<noteq> Leaf \<and> ts ! i = erase T'"
    by blast
  have "rootIsBlack s \<and> noRedRed s \<and> blackCountsEqual s" if "s \<in> set ts" for s
  proof -
    from that len obtain i where "i < length vals" "s = ts ! i" by (auto simp: in_set_conv_nth)
    with nth obtain s' root' T' where g: "rb_good s' root' T'" and ne: "T' \<noteq> Leaf" and s: "s = erase T'"
      by blast
    from g have v: "rb_valid T'" by (simp add: rb_good_def)
    then have "rbsub T'" by (simp add: rb_valid_def)
    with v ne s show ?thesis
      by (simp add: rootIsBlack_erase noRedRed_erase blackCountsEqual_erase)
  qed
  with b len show ?thesis by blast
qed

text \<open>
  Witness for C2: the keys 10, 20, 30; the last snapshot is in the trace, so the theorem
  gives its three properties.
\<close>

theorem redBlack_invariants_witness:
  "buildRedBlackTreeSteps [10, 20, 30] =
     Some [SNode SNull 10 BLACK SNull,
           SNode SNull 10 BLACK (SNode SNull 20 RED SNull),
           SNode (SNode SNull 10 RED SNull) 20 BLACK (SNode SNull 30 RED SNull)]
   \<and> rootIsBlack (SNode (SNode SNull 10 RED SNull) 20 BLACK (SNode SNull 30 RED SNull))
   \<and> noRedRed (SNode (SNode SNull 10 RED SNull) 20 BLACK (SNode SNull 30 RED SNull))
   \<and> blackCountsEqual (SNode (SNode SNull 10 RED SNull) 20 BLACK (SNode SNull 30 RED SNull))"
proof -
  have e: "buildRedBlackTreeSteps [10, 20, 30] =
     Some [SNode SNull 10 BLACK SNull,
           SNode SNull 10 BLACK (SNode SNull 20 RED SNull),
           SNode (SNode SNull 10 RED SNull) 20 BLACK (SNode SNull 30 RED SNull)]"
    by code_simp
  from redBlack_invariants_after_every_insertion[of "[10, 20, 30]"] e
  show ?thesis by auto
qed




text \<open>
  Claim C4. In every recorded trace of either engine the in-order key sequence of each
  snapshot is non-decreasing. The Red-Black trace exists for every key sequence.
\<close>

theorem inorder_sorted_at_every_step:
  "(\<forall>out. buildAVLTreeSteps vals = Some out \<longrightarrow> (\<forall>s\<in>set out. sorted (avl_inorder (tree s))))
   \<and> (\<exists>out. buildRedBlackTreeSteps vals = Some out \<and> (\<forall>s\<in>set out. sorted (snap_inorder s)))"
proof
  show "\<forall>out. buildAVLTreeSteps vals = Some out \<longrightarrow> (\<forall>s\<in>set out. sorted (avl_inorder (tree s)))"
  proof (intro allI impI ballI)
    fix out s
    assume b: "buildAVLTreeSteps vals = Some out" and s: "s \<in> set out"
    from avl_loop_char[OF b[unfolded buildAVLTreeSteps_def]] obtain ts where
      o: "out = ts" and len: "length ts = length vals"
      and nth: "\<forall>i<length vals. avlInsertAll Null (take (Suc i) vals) = Some (tree (ts ! i))" by auto
    from s o len obtain i where "i < length vals" "s = ts ! i" by (auto simp: in_set_conv_nth)
    with nth have "avlInsertAll Null (take (Suc i) vals) = Some (tree s)" by simp
    from avlInsertAll_sorted[OF this] show "sorted (avl_inorder (tree s))" by simp
  qed
next
  from rb_build_good[of vals] obtain ts where b: "buildRedBlackTreeSteps vals = Some ts"
    and len: "length ts = length vals"
    and nth: "\<forall>i<length vals. \<exists>s' root' T'. rb_good s' root' T' \<and> ts ! i = erase T'"
    by blast
  have "sorted (snap_inorder s)" if "s \<in> set ts" for s
  proof -
    from that len obtain i where "i < length vals" "s = ts ! i" by (auto simp: in_set_conv_nth)
    with nth obtain s' root' T' where g: "rb_good s' root' T'" and s: "s = erase T'" by blast
    then show ?thesis by (simp add: rb_good_def snap_inorder_erase)
  qed
  with b show "\<exists>out. buildRedBlackTreeSteps vals = Some out \<and> (\<forall>s\<in>set out. sorted (snap_inorder s))"
    by blast
qed

text \<open>
  Witness for C4: the keys 3, 1, 2 in both engines, at the last snapshot.
\<close>

theorem inorder_sorted_witness:
  "buildAVLTreeSteps [3, 1, 2] =
     Some [\<lparr>tree = AVLNode Null 3 1 Null, current = 3\<rparr>,
           \<lparr>tree = AVLNode (AVLNode Null 1 1 Null) 3 2 Null, current = 1\<rparr>,
           \<lparr>tree = AVLNode (AVLNode Null 1 1 Null) 2 2 (AVLNode Null 3 1 Null), current = 2\<rparr>]
   \<and> sorted (avl_inorder (AVLNode (AVLNode Null 1 1 Null) 2 2 (AVLNode Null 3 1 Null)))
   \<and> buildRedBlackTreeSteps [3, 1, 2] =
     Some [SNode SNull 3 BLACK SNull,
           SNode (SNode SNull 1 RED SNull) 3 BLACK SNull,
           SNode (SNode SNull 1 RED SNull) 2 BLACK (SNode SNull 3 RED SNull)]
   \<and> sorted (snap_inorder (SNode (SNode SNull 1 RED SNull) 2 BLACK (SNode SNull 3 RED SNull)))"
proof -
  have a: "buildAVLTreeSteps [3, 1, 2] =
     Some [\<lparr>tree = AVLNode Null 3 1 Null, current = 3\<rparr>,
           \<lparr>tree = AVLNode (AVLNode Null 1 1 Null) 3 2 Null, current = 1\<rparr>,
           \<lparr>tree = AVLNode (AVLNode Null 1 1 Null) 2 2 (AVLNode Null 3 1 Null), current = 2\<rparr>]"
    by (simp add: buildAVLTreeSteps_def)
  have r: "buildRedBlackTreeSteps [3, 1, 2] =
     Some [SNode SNull 3 BLACK SNull,
           SNode (SNode SNull 1 RED SNull) 3 BLACK SNull,
           SNode (SNode SNull 1 RED SNull) 2 BLACK (SNode SNull 3 RED SNull)]"
    by code_simp
  from inorder_sorted_at_every_step[of "[3, 1, 2]"] a r
  have "sorted (avl_inorder (AVLNode (AVLNode Null 1 1 Null) 2 2 (AVLNode Null 3 1 Null)))"
    and "sorted (snap_inorder (SNode (SNode SNull 1 RED SNull) 2 BLACK (SNode SNull 3 RED SNull)))"
    by auto
  with a r show ?thesis by blast
qed

text \<open>
  Claim C5. In every tree that a sequence of \<open>avlInsert\<close> calls produces from the empty
  tree, the stored height of every node is the height of its subtree (1 for a leaf, 0
  for the empty tree).
\<close>

theorem avl_stored_heights_are_real_heights:
  "avlInsertAll Null vals = Some t \<Longrightarrow> heightsCorrect t"
  using avlInsertAll_heights[of Null vals t] by simp

text \<open>
  Witness for C5: the keys 1, 2, 3, with the left rotation at the root.
\<close>

theorem avl_stored_heights_witness:
  "avlInsertAll Null [1, 2, 3] = Some (AVLNode (AVLNode Null 1 1 Null) 2 2 (AVLNode Null 3 1 Null))
   \<and> heightsCorrect (AVLNode (AVLNode Null 1 1 Null) 2 2 (AVLNode Null 3 1 Null))"
proof -
  have e: "avlInsertAll Null [1, 2, 3] = Some (AVLNode (AVLNode Null 1 1 Null) 2 2 (AVLNode Null 3 1 Null))"
    by simp
  from avl_stored_heights_are_real_heights[OF e] e show ?thesis by blast
qed

text \<open>
  Claim C6. After any sequence of insertions, the fix-up loop for the next key \<open>v\<close> ends:
  some number \<open>n\<close> of iterations, with \<open>2 ^ n\<close> at most the number of keys plus one, leaves
  \<open>z\<close> with no parent or a BLACK parent, and that is the result of the loop. Every
  iteration that the loop makes returns, and after it either the guard is false or \<open>z\<close>
  is its former grandparent, two levels nearer to the root.
\<close>

theorem fixInsert_loop_terminates:
  "\<exists>s root h1 root1.
      redBlackInsertAll emptyStore None vals = Some (s, root)
      \<and> redBlackInsert_attach s root v = Some (h1, root1, fresh s)
      \<and> (\<exists>n h' root' z'. 2 ^ n \<le> length vals + 1
             \<and> fixInsert_iter n h1 root1 (fresh s) = Some (h', root', z')
             \<and> \<not> fixInsert_cond h' z'
             \<and> fixInsert_loop h1 root1 (fresh s) = Some (h', root', z'))
      \<and> (\<forall>k hk rk zk. fixInsert_iter k h1 root1 (fresh s) = Some (hk, rk, zk) \<and> fixInsert_cond hk zk
            \<longrightarrow> (\<exists>h' r' z'. fixInsert_body hk rk zk = Some (h', r', z')
                   \<and> (\<not> fixInsert_cond h' z'
                        \<or> Option.bind (parent (hk zk)) (\<lambda>p. parent (hk p)) = Some z'
                          \<and> (\<exists>d. nodeDepth h' z' = Some d \<and> nodeDepth hk zk = Some (d + 2)))))"
proof -
  from redBlackInsertAll_good[OF rb_good_empty, of vals] obtain s root T where
    all: "redBlackInsertAll emptyStore None vals = Some (s, root)" and G: "rb_good s root T"
    and len: "length (inorder T) = length vals" by auto
  from fix_terminates_log[OF G, of v] obtain h1 root1 cs where
    a: "redBlackInsert_attach s root v = Some (h1, root1, fresh s)"
    and I: "fix_inv h1 root1 (fresh s) cs (Node Leaf (fresh s) RED v Leaf)"
    and fin: "\<exists>n h' root' z'. 2 ^ n \<le> length (inorder T) + 1
                 \<and> fixInsert_iter n h1 root1 (fresh s) = Some (h', root', z')
                 \<and> \<not> fixInsert_cond h' z'
                 \<and> fixInsert_loop h1 root1 (fresh s) = Some (h', root', z')" by blast
  have step: "\<exists>h' r' z'. fixInsert_body hk rk zk = Some (h', r', z')
                   \<and> (\<not> fixInsert_cond h' z'
                        \<or> Option.bind (parent (hk zk)) (\<lambda>p. parent (hk p)) = Some z'
                          \<and> (\<exists>d. nodeDepth h' z' = Some d \<and> nodeDepth hk zk = Some (d + 2)))"
    if "fixInsert_iter k h1 root1 (fresh s) = Some (hk, rk, zk)" "fixInsert_cond hk zk" for k hk rk zk
  proof -
    from iter_inv[OF I that(1)] obtain cs' t' where "fix_inv hk rk zk cs' t'" by blast
    from body_progress[OF this that(2)] show ?thesis by blast
  qed
  from all a fin[unfolded len] step show ?thesis
    by (intro exI[of _ s] exI[of _ root] exI[of _ h1] exI[of _ root1]) blast
qed

text \<open>
  Witness for C6: after the keys 10, 5, 20 the key 1 is attached below the RED node 5,
  so the guard holds and the theorem gives the first iteration.
\<close>

theorem fixInsert_loop_terminates_witness:
  "\<exists>s root h1 root1 h' r' z'.
      redBlackInsertAll emptyStore None [10, 5, 20] = Some (s, root)
      \<and> redBlackInsert_attach s root 1 = Some (h1, root1, fresh s)
      \<and> fixInsert_iter 0 h1 root1 (fresh s) = Some (h1, root1, fresh s)
      \<and> fixInsert_cond h1 (fresh s)
      \<and> fixInsert_body h1 root1 (fresh s) = Some (h', r', z')"
proof -
  have c: "case attachedState [10, 5, 20] 1 of None \<Rightarrow> False | Some (h1, root1, z) \<Rightarrow> fixInsert_cond h1 z"
    by code_simp
  from fixInsert_loop_terminates[of "[10, 5, 20]" 1] obtain s root h1 root1 where
    all: "redBlackInsertAll emptyStore None [10, 5, 20] = Some (s, root)"
    and a: "redBlackInsert_attach s root 1 = Some (h1, root1, fresh s)"
    and step: "\<forall>k hk rk zk. fixInsert_iter k h1 root1 (fresh s) = Some (hk, rk, zk) \<and> fixInsert_cond hk zk
            \<longrightarrow> (\<exists>h' r' z'. fixInsert_body hk rk zk = Some (h', r', z')
                   \<and> (\<not> fixInsert_cond h' z'
                        \<or> Option.bind (parent (hk zk)) (\<lambda>p. parent (hk p)) = Some z'
                          \<and> (\<exists>d. nodeDepth h' z' = Some d \<and> nodeDepth hk zk = Some (d + 2))))"
    by (elim exE conjE) (rule that)
  from c have cond: "fixInsert_cond h1 (fresh s)"
    unfolding attachedState_def all by (simp add: a)
  have it: "fixInsert_iter 0 h1 root1 (fresh s) = Some (h1, root1, fresh s)" by simp
  from step it cond obtain h' r' z' where "fixInsert_body h1 root1 (fresh s) = Some (h', r', z')"
    by blast
  with all a it cond show ?thesis by blast
qed

text \<open>
  Claim C7 (one snapshot per key, for every key sequence and either engine). For the keys
  2, 2, 2, 2, 1 the AVL recorder returns no trace: the fifth insertion raises a TypeError
  inside \<open>avlInsert\<close> (see C10), so \<open>buildAVLTreeSteps\<close> does not return.
\<close>

theorem avl_trace_not_built_for_2_2_2_2_1: "buildAVLTreeSteps [2, 2, 2, 2, 1] = None"
  by (simp add: buildAVLTreeSteps_def)



text \<open>
  Claim C9. The index is 0 after mounting and after every replacement of the steps; a
  timer tick below the last snapshot adds exactly one; and once the index is
  \<open>length steps - 1\<close>, any number of further ticks leaves it there.
\<close>

theorem playback_index_laws:
  "currentStepIndex (mount tr ms) = 0
   \<and> currentStepIndex (setSteps tr v) = 0
   \<and> (currentStepIndex v < int (length (steps v)) - 1 \<longrightarrow>
        currentStepIndex (tick v) = currentStepIndex v + 1)
   \<and> (currentStepIndex v = int (length (steps v)) - 1 \<longrightarrow>
        currentStepIndex ((tick ^^ n) v) = currentStepIndex v)"
  by (simp add: mount_def setSteps_def tick_def ticks_at_last)

text \<open>
  Witness for C9: three steps; the first tick moves the index to 1, and five ticks at the
  last index 2 change nothing.
\<close>

theorem playback_index_witness:
  "currentStepIndex (tick (mount [10, 20, 30 :: int] 1000)) = 1
   \<and> currentStepIndex ((tick ^^ 5) (tick (tick (mount [10, 20, 30 :: int] 1000)))) = 2"
proof -
  let ?v0 = "mount [10, 20, 30 :: int] 1000"
  let ?v2 = "tick (tick ?v0)"
  have 0: "currentStepIndex ?v0 < int (length (steps ?v0)) - 1" by (simp add: mount_def)
  have 2: "currentStepIndex ?v2 = int (length (steps ?v2)) - 1" by (simp add: mount_def tick_def)
  from playback_index_laws[where v = ?v0 and tr = "[] :: int list"] 0
  have "currentStepIndex (tick ?v0) = currentStepIndex ?v0 + 1" by blast
  moreover from playback_index_laws[where v = ?v2 and n = 5 and tr = "[] :: int list"] 2
  have "currentStepIndex ((tick ^^ 5) ?v2) = currentStepIndex ?v2" by blast
  ultimately show ?thesis by (simp add: mount_def tick_def)
qed

text \<open>
  Claim C10 (no read of a field of \<open>null\<close>). After the keys 2, 2, 2, 2 the AVL tree is a
  chain to the right that no rebalancing test has touched (each test compares the key with
  an equal value). Inserting 1 puts it left of the root; the balance is -2 and the key is
  less than \<open>root.right.value\<close>, so \<open>avlInsert\<close> calls \<open>rightRotate(root.right)\<close>, whose
  \<open>y.left\<close> is \<open>null\<close>: the read \<open>x.right\<close> raises.
\<close>

theorem avl_inner_rotation_on_null_child:
  "avlInsertAll Null [2, 2, 2, 2]
     = Some (AVLNode Null 2 4 (AVLNode Null 2 3 (AVLNode Null 2 2 (AVLNode Null 2 1 Null))))
   \<and> avl_rightRotate (AVLNode Null 2 3 (AVLNode Null 2 2 (AVLNode Null 2 1 Null))) = None
   \<and> avlInsert (AVLNode Null 2 4 (AVLNode Null 2 3 (AVLNode Null 2 2 (AVLNode Null 2 1 Null)))) 1 = None"
  by simp

end
